theory Spec2Isabelle
  imports Main "HOL-Library.While_Combinator"
begin

section \<open>Constants and global state of the maze program\<close>

definition MAXR :: int where "MAXR = 105"
definition MAXC :: int where "MAXC = 105"
definition QSIZE :: int where "QSIZE = MAXR * MAXC"
definition MAX_PATHS_TO_SHOW :: int where "MAX_PATHS_TO_SHOW = 20"

text \<open>
  The global variables of the program. A one-dimensional array is a total function on
  \<open>int\<close> indices, a two-dimensional array a function on (row, column) pairs; every
  theorem below that depends on an index being inside the C array states the bound.
  The static arrays start zero-filled.
\<close>

record state =
  maze :: "int \<times> int \<Rightarrow> char"
  rows :: int
  cols :: int
  sr :: int
  sc :: int
  er :: int
  ec :: int
  pr :: int
  pc :: int
  current_path_r :: "int \<Rightarrow> int"
  current_path_c :: "int \<Rightarrow> int"
  path_len :: int
  qr :: "int \<Rightarrow> int"
  qc :: "int \<Rightarrow> int"
  front :: int
  rear :: int

definition NUL :: char where "NUL = CHR 0x00"
definition NL :: char where "NL = CHR 0x0A"

definition init_state :: state where
  "init_state = \<lparr> maze = (\<lambda>_. NUL), rows = 0, cols = 0, sr = 0, sc = 0, er = 0, ec = 0,
     pr = 0, pc = 0, current_path_r = (\<lambda>_. 0), current_path_c = (\<lambda>_. 0), path_len = 0,
     qr = (\<lambda>_. 0), qc = (\<lambda>_. 0), front = 0, rear = 0 \<rparr>"

text \<open>The direction tables \<open>dr[]\<close> and \<open>dc[]\<close>: up, down, left, right.\<close>

definition dr :: "nat \<Rightarrow> int" where
  "dr d = [-1, 1, 0, 0] ! d"

definition dc :: "nat \<Rightarrow> int" where
  "dc d = [0, 0, -1, 1] ! d"

section \<open>Movement\<close>

definition is_valid :: "state \<Rightarrow> int \<Rightarrow> int \<Rightarrow> bool" where
  "is_valid st r c =
     (if r < 0 \<or> r \<ge> rows st \<or> c < 0 \<or> c \<ge> cols st then False
      else if maze st (r, c) = CHR ''#'' then False
      else True)"

definition move_player :: "char \<Rightarrow> state \<Rightarrow> state" where
  "move_player ch st =
     (let nr = pr st; nc = pc st;
          target =
            (if ch = CHR ''w'' \<or> ch = CHR ''W'' then Some (nr - 1, nc)
             else if ch = CHR ''s'' \<or> ch = CHR ''S'' then Some (nr + 1, nc)
             else if ch = CHR ''a'' \<or> ch = CHR ''A'' then Some (nr, nc - 1)
             else if ch = CHR ''d'' \<or> ch = CHR ''D'' then Some (nr, nc + 1)
             else None)
      in case target of
           None \<Rightarrow> st
         | Some (nr, nc) \<Rightarrow> if is_valid st nr nc then st\<lparr>pr := nr, pc := nc\<rparr> else st)"

text \<open>The cardinal delta a recognised key stands for; \<open>None\<close> for every other character.\<close>

definition key_delta :: "char \<Rightarrow> (int \<times> int) option" where
  "key_delta ch =
     (if ch \<in> {CHR ''w'', CHR ''W''} then Some (-1, 0)
      else if ch \<in> {CHR ''s'', CHR ''S''} then Some (1, 0)
      else if ch \<in> {CHR ''a'', CHR ''A''} then Some (0, -1)
      else if ch \<in> {CHR ''d'', CHR ''D''} then Some (0, 1)
      else None)"

section \<open>Loading the maze file\<close>

text \<open>
  \<open>fgets(line, n, f)\<close> on the remaining characters of the stream: at most \<open>n - 1\<close>
  characters are taken, stopping after a newline; \<open>None\<close> is the NULL returned at end
  of file.
\<close>

fun fgets_chars :: "nat \<Rightarrow> string \<Rightarrow> string \<times> string" where
  "fgets_chars 0 s = ([], s)"
| "fgets_chars (Suc n) [] = ([], [])"
| "fgets_chars (Suc n) (c # s) =
     (if c = NL then ([c], s)
      else (case fgets_chars n s of (l, rest) \<Rightarrow> (c # l, rest)))"

definition fgets :: "int \<Rightarrow> string \<Rightarrow> (string \<times> string) option" where
  "fgets n s = (if s = [] then None else Some (fgets_chars (nat (n - 1)) s))"

text \<open>The C string held by a buffer: the characters before the first NUL.\<close>

definition c_str :: "string \<Rightarrow> string" where
  "c_str buf = takeWhile (\<lambda>c. c \<noteq> NUL) buf"

text \<open>\<open>strcpy(maze[r], line)\<close> writes the characters and the terminating NUL.\<close>

definition strcpy_row :: "(int \<times> int \<Rightarrow> char) \<Rightarrow> int \<Rightarrow> string \<Rightarrow> int \<times> int \<Rightarrow> char" where
  "strcpy_row m r line =
     (\<lambda>(i, j). if i = r \<and> 0 \<le> j \<and> j \<le> int (length line) then (line @ [NUL]) ! nat j else m (i, j))"

lemma fgets_chars_length: "length (snd (fgets_chars n s)) \<le> length s"
  by (induction n s rule: fgets_chars.induct) (auto split: prod.splits)

lemma fgets_chars_shorter:
  "0 < n \<Longrightarrow> s \<noteq> [] \<Longrightarrow> length (snd (fgets_chars n s)) < length s"
proof (cases n)
  case 0
  assume "0 < n" with 0 show ?thesis by simp
next
  case (Suc k)
  assume "s \<noteq> []"
  then obtain c t where s: "s = c # t" by (cases s) auto
  have "length (snd (fgets_chars k t)) \<le> length t" by (rule fgets_chars_length)
  then show ?thesis using Suc s by (auto split: prod.splits)
qed

lemma fgets_shorter:
  assumes "fgets MAXC f = Some (buf, f')"
  shows "length f' < length f"
proof -
  from assms have ne: "f \<noteq> []" and f': "f' = snd (fgets_chars (nat (MAXC - 1)) f)"
    by (auto simp: fgets_def split: if_splits)
  have "0 < nat (MAXC - 1)" by (simp add: MAXC_def)
  then show ?thesis unfolding f' using ne by (rule fgets_chars_shorter)
qed

text \<open>
  The body of the reading loop of \<open>load_maze\<close>, for the buffer \<open>fgets\<close> filled. It ends
  in \<open>continue\<close> or at the end of the body (\<open>Continue\<close>), in the \<open>break\<close> at \<open>MAXR\<close> rows
  (\<open>Break\<close>), or in \<open>return 0\<close> for a row of another length (\<open>Return0\<close>).
\<close>

datatype loop_exit = Continue state | Break state | Return0 state

definition load_row :: "string \<Rightarrow> state \<Rightarrow> loop_exit" where
  "load_row buf st =
     (let line0 = c_str buf;
          line = (if length line0 > 0 \<and> line0 ! (length line0 - 1) = NL
                  then take (length line0 - 1) line0 else line0);
          len = int (length line)
      in if len = 0 then Continue st
         else
           (let st1 = st\<lparr>maze := strcpy_row (maze st) (rows st) line\<rparr> in
            if rows st1 \<noteq> 0 \<and> len \<noteq> cols st1 then Return0 st1
            else
              (let st2 = (if rows st1 = 0 then st1\<lparr>cols := len\<rparr> else st1);
                   st3 = st2\<lparr>rows := rows st2 + 1\<rparr>
               in if rows st3 \<ge> MAXR then Break st3 else Continue st3)))"

text \<open>
  The reading loop. The flag of the result is \<open>False\<close> when the body returned 0,
  \<open>True\<close> when the loop ended by end of file or by the \<open>break\<close>.
\<close>

function load_loop :: "string \<Rightarrow> state \<Rightarrow> bool \<times> state" where
  "load_loop f st =
     (case fgets MAXC f of
        None \<Rightarrow> (True, st)
      | Some (buf, f') \<Rightarrow>
          (case load_row buf st of
             Continue st1 \<Rightarrow> load_loop f' st1
           | Break st1 \<Rightarrow> (True, st1)
           | Return0 st1 \<Rightarrow> (False, st1)))"
  by pat_completeness auto
termination
  by (relation "measure (\<lambda>(f, st). length f)") (auto dest: fgets_shorter)

declare load_loop.simps [simp del]

text \<open>The scan for the markers: the nested \<open>for\<close> loops over rows and columns.\<close>

definition scan_cell :: "int \<Rightarrow> int \<Rightarrow> state \<Rightarrow> state" where
  "scan_cell i j st =
     (let st1 = (if maze st (i, j) = CHR ''S'' then st\<lparr>sr := i, sc := j\<rparr> else st)
      in if maze st1 (i, j) = CHR ''E'' then st1\<lparr>er := i, ec := j\<rparr> else st1)"

definition scan_markers :: "state \<Rightarrow> state" where
  "scan_markers st =
     fold (\<lambda>i. fold (\<lambda>j. scan_cell (int i) (int j)) [0..<nat (cols st)]) [0..<nat (rows st)] st"

definition load_maze :: "string option \<Rightarrow> state \<Rightarrow> int \<times> state" where
  "load_maze src st =
     (case src of
        None \<Rightarrow> (0, st)
      | Some f \<Rightarrow>
          (case load_loop f (st\<lparr>rows := 0\<rparr>) of
             (False, st1) \<Rightarrow> (0, st1)
           | (True, st1) \<Rightarrow>
               if rows st1 = 0 \<or> cols st1 = 0 then (0, st1)
               else
                 (let st2 = st1\<lparr>sr := -1, sc := -1, er := -1, ec := -1\<rparr>;
                      st3 = scan_markers st2
                  in if sr st3 = -1 \<or> er st3 = -1 then (0, st3) else (1, st3))))"

section \<open>The circular queue\<close>

definition queue_init :: "state \<Rightarrow> state" where
  "queue_init st = st\<lparr>front := 0, rear := 0\<rparr>"

definition queue_empty :: "state \<Rightarrow> bool" where
  "queue_empty st = (front st = rear st)"

definition queue_push :: "int \<Rightarrow> int \<Rightarrow> state \<Rightarrow> state" where
  "queue_push r c st =
     st\<lparr>qr := (qr st)(rear st := r), qc := (qc st)(rear st := c),
        rear := (rear st + 1) mod QSIZE\<rparr>"

definition queue_pop :: "state \<Rightarrow> (int \<times> int) \<times> state" where
  "queue_pop st = ((qr st (front st), qc st (front st)), st\<lparr>front := (front st + 1) mod QSIZE\<rparr>)"

section \<open>Breadth-first search\<close>

text \<open>The local arrays and the flag of \<open>bfs_shortest\<close>.\<close>

record bfs_locals =
  visited :: "int \<times> int \<Rightarrow> int"
  parent_r :: "int \<times> int \<Rightarrow> int"
  parent_c :: "int \<times> int \<Rightarrow> int"
  found :: int

text \<open>
  The inner \<open>for (d = 0; d < 4; d++)\<close> loop for the popped cell \<open>(cr, cc)\<close>, as a
  recursion over the directions still to try; the \<open>break\<close> ends it.
\<close>

fun bfs_dirs :: "int \<Rightarrow> int \<Rightarrow> nat list \<Rightarrow> state \<times> bfs_locals \<Rightarrow> state \<times> bfs_locals" where
  "bfs_dirs cr cc [] (st, lv) = (st, lv)"
| "bfs_dirs cr cc (d # ds) (st, lv) =
     (let nr = cr + dr d; nc = cc + dc d in
      if \<not> is_valid st nr nc then bfs_dirs cr cc ds (st, lv)
      else if visited lv (nr, nc) \<noteq> 0 then bfs_dirs cr cc ds (st, lv)
      else
        (let lv1 = lv\<lparr>visited := (visited lv)((nr, nc) := 1),
                       parent_r := (parent_r lv)((nr, nc) := cr),
                       parent_c := (parent_c lv)((nr, nc) := cc)\<rparr>;
             st1 = queue_push nr nc st
         in if nr = er st1 \<and> nc = ec st1 then (st1, lv1\<lparr>found := 1\<rparr>)
            else bfs_dirs cr cc ds (st1, lv1)))"

definition bfs_cond :: "state \<times> bfs_locals \<Rightarrow> bool" where
  "bfs_cond = (\<lambda>(st, lv). \<not> queue_empty st \<and> found lv = 0)"

definition bfs_body :: "state \<times> bfs_locals \<Rightarrow> state \<times> bfs_locals" where
  "bfs_body = (\<lambda>(st, lv). case queue_pop st of ((cr, cc), st1) \<Rightarrow> bfs_dirs cr cc [0, 1, 2, 3] (st1, lv))"

text \<open>
  The search part of \<open>bfs_shortest\<close>, up to the end of the \<open>while\<close> loop. The arrays
  \<open>parent_r\<close> and \<open>parent_c\<close> are not initialised by the source: their first contents
  \<open>p_r\<close>, \<open>p_c\<close> are parameters. \<open>None\<close> means that the loop does not end.
\<close>

definition bfs_search :: "(int \<times> int \<Rightarrow> int) \<Rightarrow> (int \<times> int \<Rightarrow> int) \<Rightarrow> state \<Rightarrow> (state \<times> bfs_locals) option" where
  "bfs_search p_r p_c st =
     (let st1 = queue_push (sr st) (sc st) (queue_init st);
          lv1 = \<lparr>visited = (\<lambda>_. 0)((sr st, sc st) := 1),
                 parent_r = p_r((sr st, sc st) := -1),
                 parent_c = p_c((sr st, sc st) := -1),
                 found = 0\<rparr>
      in while_option bfs_cond bfs_body (st1, lv1))"

text \<open>
  \<open>mark_shortest_path\<close>: the walk along the parent links from the exit. The last
  component of the loop state is a ghost variable, not in the source: the cells the
  walk has left so far, latest first. The result is the printed length, the state
  with the marked maze, and the cells of the walk from its last cell back to the exit.
\<close>

definition mark_cond :: "int \<times> int \<times> int \<times> state \<times> (int \<times> int) list \<Rightarrow> bool" where
  "mark_cond = (\<lambda>(cr, cc, len, st, tr). cr \<noteq> sr st \<or> cc \<noteq> sc st)"

definition mark_body ::
  "(int \<times> int \<Rightarrow> int) \<Rightarrow> (int \<times> int \<Rightarrow> int) \<Rightarrow> int \<times> int \<times> int \<times> state \<times> (int \<times> int) list
     \<Rightarrow> int \<times> int \<times> int \<times> state \<times> (int \<times> int) list" where
  "mark_body p_r p_c = (\<lambda>(cr, cc, len, st, tr).
     (let tempr = p_r (cr, cc); tempc = p_c (cr, cc);
          st1 = (if maze st (cr, cc) \<noteq> CHR ''S'' \<and> maze st (cr, cc) \<noteq> CHR ''E''
                 then st\<lparr>maze := (maze st)((cr, cc) := CHR ''b'')\<rparr> else st)
      in (tempr, tempc, len + 1, st1, (cr, cc) # tr)))"

definition mark_shortest_path ::
  "(int \<times> int \<Rightarrow> int) \<Rightarrow> (int \<times> int \<Rightarrow> int) \<Rightarrow> state \<Rightarrow> (int \<times> state \<times> (int \<times> int) list) option" where
  "mark_shortest_path p_r p_c st =
     (case while_option mark_cond (mark_body p_r p_c) (er st, ec st, 0, st, []) of
        None \<Rightarrow> None
      | Some (cr, cc, len, st1, tr) \<Rightarrow> Some (len, st1, (cr, cc) # tr))"

text \<open>What \<open>bfs_shortest\<close> prints: "No path exists!" or the length of the marked path.\<close>

datatype bfs_report = NoPath | Shortest int

definition bfs_shortest ::
  "(int \<times> int \<Rightarrow> int) \<Rightarrow> (int \<times> int \<Rightarrow> int) \<Rightarrow> state \<Rightarrow> (bfs_report \<times> state \<times> (int \<times> int) list) option" where
  "bfs_shortest p_r p_c st =
     (case bfs_search p_r p_c st of
        None \<Rightarrow> None
      | Some (st1, lv) \<Rightarrow>
          if found lv = 0 then Some (NoPath, st1, [])
          else (case mark_shortest_path (parent_r lv) (parent_c lv) st1 of
                  None \<Rightarrow> None
                | Some (len, st2, tr) \<Rightarrow> Some (Shortest len, st2, tr)))"

section \<open>Randomised depth-first search\<close>

text \<open>
  \<open>rand()\<close> is a sequence \<open>rnd\<close> of non-negative numbers and a position in it. The
  shuffle of the four directions runs \<open>i\<close> from 3 down to 1.
\<close>

fun shuffle_loop :: "(nat \<Rightarrow> nat) \<Rightarrow> nat \<Rightarrow> nat list \<times> nat \<Rightarrow> nat list \<times> nat" where
  "shuffle_loop rnd 0 (dirs, k) = (dirs, k)"
| "shuffle_loop rnd (Suc i') (dirs, k) =
     (let i = Suc i';
          j = rnd k mod (i + 1);
          temp = dirs ! i;
          dirs1 = dirs[i := dirs ! j];
          dirs2 = dirs1[j := temp]
      in shuffle_loop rnd i' (dirs2, Suc k))"

definition shuffle :: "(nat \<Rightarrow> nat) \<Rightarrow> nat \<Rightarrow> nat list \<times> nat" where
  "shuffle rnd k = shuffle_loop rnd 3 ([0, 1, 2, 3], k)"

text \<open>
  \<open>dfs_find_one_path\<close> with the depth of the recursion bounded by a fuel argument
  (\<open>None\<close>: the fuel ran out); \<open>dfs_try\<close> is its second \<open>for\<close> loop. The search state is
  the global state, the caller's \<open>visited\<close> array and the position in the random
  sequence.
\<close>

type_synonym dfs_state = "state \<times> (int \<times> int \<Rightarrow> int) \<times> nat"

fun dfs_find_one_path :: "(nat \<Rightarrow> nat) \<Rightarrow> nat \<Rightarrow> int \<Rightarrow> int \<Rightarrow> dfs_state \<Rightarrow> (int \<times> dfs_state) option"
  and dfs_try :: "(nat \<Rightarrow> nat) \<Rightarrow> nat \<Rightarrow> int \<Rightarrow> int \<Rightarrow> nat list \<Rightarrow> dfs_state \<Rightarrow> (int \<times> dfs_state) option"
where
  "dfs_find_one_path rnd 0 r c s = None"
| "dfs_find_one_path rnd (Suc fuel) r c (st, vis, k) =
     (let st1 = st\<lparr>current_path_r := (current_path_r st)(path_len st := r),
                    current_path_c := (current_path_c st)(path_len st := c),
                    path_len := path_len st + 1\<rparr>
      in if r = er st1 \<and> c = ec st1 then Some (1, (st1, vis, k))
         else (case shuffle rnd k of
                 (dirs, k1) \<Rightarrow> dfs_try rnd fuel r c dirs (st1, vis((r, c) := 1), k1)))"
| "dfs_try rnd fuel r c [] (st, vis, k) =
     Some (0, (st\<lparr>path_len := path_len st - 1\<rparr>, vis((r, c) := 0), k))"
| "dfs_try rnd fuel r c (d # ds) (st, vis, k) =
     (let nr = r + dr d; nc = c + dc d in
      if is_valid st nr nc \<and> vis (nr, nc) = 0 then
        (case dfs_find_one_path rnd fuel nr nc (st, vis, k) of
           None \<Rightarrow> None
         | Some (res, s') \<Rightarrow> if res \<noteq> 0 then Some (1, s') else dfs_try rnd fuel r c ds s')
      else dfs_try rnd fuel r c ds (st, vis, k))"

section \<open>Manual play, path display and the main loop\<close>

text \<open>
  What the program reads is made explicit: \<open>scanf(" %c")\<close> takes the next character
  of a list and \<open>scanf("%d")\<close> the next number of a list. A run that would read
  past the end of its input has no result (\<open>None\<close>, \<open>InputEnd\<close>). What it prints is
  kept as a list of events.
\<close>

datatype event =
  LoadError | Terminated | Won | Quit | PathShown int | NoMorePaths | MaxPaths
  | BfsReport bfs_report | InvalidOption | Goodbye

text \<open>
  \<open>play_manual\<close>: the loop stops at the exit or at \<open>q\<close>; every other character goes
  to \<open>move_player\<close>.
\<close>

fun play_loop :: "char list \<Rightarrow> state \<Rightarrow> (char list \<times> state \<times> event list) option" where
  "play_loop [] st = (if pr st = er st \<and> pc st = ec st then Some ([], st, [Won]) else None)"
| "play_loop (ch # cs) st =
     (if pr st = er st \<and> pc st = ec st then Some (ch # cs, st, [Won])
      else if ch = CHR ''q'' \<or> ch = CHR ''Q'' then Some (cs, st, [Quit])
      else play_loop cs (move_player ch st))"

definition play_manual :: "char list \<Rightarrow> state \<Rightarrow> (char list \<times> state \<times> event list) option" where
  "play_manual cs st = play_loop cs (st\<lparr>pr := sr st, pc := sc st\<rparr>)"

text \<open>
  \<open>show_some_solutions\<close>. The C recursion has no depth bound; the model calls
  \<open>dfs_find_one_path\<close> with more fuel than the arrays have cells. The copy
  \<open>temp_maze\<close> is local and only printed, so it leaves no trace in the state.
\<close>

definition dfs_fuel :: nat where
  "dfs_fuel = nat (MAXR * MAXC) + 1"

function show_loop ::
  "(nat \<Rightarrow> nat) \<Rightarrow> int \<Rightarrow> char list \<Rightarrow> nat \<Rightarrow> state \<Rightarrow> (char list \<times> nat \<times> state \<times> event list) option" where
  "show_loop rnd count cs k st =
     (if count < MAX_PATHS_TO_SHOW then
        (case dfs_find_one_path rnd dfs_fuel (sr st) (sc st) (st\<lparr>path_len := 0\<rparr>, (\<lambda>_. 0), k) of
           None \<Rightarrow> None
         | Some (res, st1, vis, k1) \<Rightarrow>
             if res = 0 then Some (cs, k1, st1, [NoMorePaths])
             else if count + 1 \<ge> MAX_PATHS_TO_SHOW
               then Some (cs, k1, st1, [PathShown (path_len st1 - 1), MaxPaths])
             else (case cs of
                     [] \<Rightarrow> None
                   | user_answer # cs' \<Rightarrow>
                       if user_answer \<noteq> CHR ''y'' \<and> user_answer \<noteq> CHR ''Y''
                       then Some (cs', k1, st1, [PathShown (path_len st1 - 1)])
                       else map_option (\<lambda>(cs2, k2, st2, ev). (cs2, k2, st2, PathShown (path_len st1 - 1) # ev))
                              (show_loop rnd (count + 1) cs' k1 st1)))
      else Some (cs, k, st, []))"
  by pat_completeness auto
termination
  by (relation "measure (\<lambda>(rnd, count, cs, k, st). nat (MAX_PATHS_TO_SHOW - count))") auto

declare show_loop.simps [simp del]

definition show_some_solutions ::
  "(nat \<Rightarrow> nat) \<Rightarrow> char list \<Rightarrow> nat \<Rightarrow> state \<Rightarrow> (char list \<times> nat \<times> state \<times> event list) option" where
  "show_some_solutions rnd cs k st = show_loop rnd 0 cs k st"

text \<open>
  The surroundings of a run that do not change: the numbers \<open>rand()\<close> returns, what
  \<open>fopen\<close> finds at its n-th call, and the contents the uninitialised arrays
  \<open>parent_r\<close>, \<open>parent_c\<close> start with. The record \<open>env\<close> holds what a run uses up.
\<close>

record world =
  rand_seq :: "nat \<Rightarrow> nat"
  file_at :: "nat \<Rightarrow> string option"
  stack_r :: "int \<times> int \<Rightarrow> int"
  stack_c :: "int \<times> int \<Rightarrow> int"

record env =
  opens :: nat
  chars :: "char list"
  rpos :: nat

datatype outcome = Exit int "event list" state | InputEnd | NoReturn

text \<open>
  \<open>main\<close>: the initial load, then the menu loop. After a mode and the answer 1 the
  maze is loaded again; as in the source, the value \<open>load_maze\<close> returns there is not
  looked at (the event \<open>LoadError\<close> stands for the message \<open>load_maze\<close> prints).
\<close>

definition run_mode :: "world \<Rightarrow> int \<Rightarrow> env \<Rightarrow> state \<Rightarrow> (env \<times> state \<times> event list) option" where
  "run_mode w opt e st =
     (if opt = 1 then
        map_option (\<lambda>(cs, st1, ev). (e\<lparr>chars := cs\<rparr>, st1, ev)) (play_manual (chars e) st)
      else if opt = 2 then
        map_option (\<lambda>(cs, k, st1, ev). (e\<lparr>chars := cs, rpos := k\<rparr>, st1, ev))
          (show_some_solutions (rand_seq w) (chars e) (rpos e) st)
      else
        map_option (\<lambda>(rep, st1, tr). (e, st1, [BfsReport rep])) (bfs_shortest (stack_r w) (stack_c w) st))"

fun main_loop :: "world \<Rightarrow> int list \<Rightarrow> env \<Rightarrow> state \<Rightarrow> event list \<Rightarrow> outcome" where
  "main_loop w [] e st ev = InputEnd"
| "main_loop w (opt # ints) e st ev =
     (if opt = 1 \<or> opt = 2 \<or> opt = 3 then
        (case run_mode w opt e st of
           None \<Rightarrow> NoReturn
         | Some (e1, st1, ev1) \<Rightarrow>
             (case ints of
                [] \<Rightarrow> InputEnd
              | again # ints' \<Rightarrow>
                  if again \<noteq> 1 then Exit 0 (ev @ ev1 @ [Goodbye]) st1
                  else (case load_maze (file_at w (opens e1)) st1 of
                          (ok, st2) \<Rightarrow>
                            main_loop w ints' (e1\<lparr>opens := opens e1 + 1\<rparr>) st2
                              (ev @ ev1 @ (if ok = 0 then [LoadError] else [])))))
      else if opt = 4 then Exit 0 (ev @ [Goodbye]) st
      else main_loop w ints e st (ev @ [InvalidOption]))"

definition main :: "world \<Rightarrow> int list \<Rightarrow> char list \<Rightarrow> outcome" where
  "main w ints cs =
     (case load_maze (file_at w 0) init_state of
        (ok, st) \<Rightarrow>
          if ok = 0 then Exit 1 [LoadError, Terminated] st
          else main_loop w ints \<lparr>opens = 1, chars = cs, rpos = 0\<rparr> st [])"

section \<open>Notions the properties are stated in\<close>

text \<open>
  A cell is passable when it lies inside the loaded grid and is not a wall; two cells
  are adjacent when they differ by one cardinal move. A path is a non-empty list of
  passable cells, each adjacent to the next.
\<close>

definition passable :: "state \<Rightarrow> int \<times> int \<Rightarrow> bool" where
  "passable st v =
     (0 \<le> fst v \<and> fst v < rows st \<and> 0 \<le> snd v \<and> snd v < cols st \<and> maze st v \<noteq> CHR ''#'')"

definition adjacent :: "int \<times> int \<Rightarrow> int \<times> int \<Rightarrow> bool" where
  "adjacent a b = (\<bar>fst a - fst b\<bar> + \<bar>snd a - snd b\<bar> = 1)"

definition is_path :: "state \<Rightarrow> int \<times> int \<Rightarrow> int \<times> int \<Rightarrow> (int \<times> int) list \<Rightarrow> bool" where
  "is_path st a b p =
     (p \<noteq> [] \<and> hd p = a \<and> last p = b \<and> list_all (passable st) p \<and> successively adjacent p)"

text \<open>
  Cells inside the grid; the last cell holding a character in row-major order; what a
  successful load establishes (\<open>load_maze_grid_ok\<close> below); states that agree on the
  maze and its markers.
\<close>

definition in_grid :: "state \<Rightarrow> int \<times> int \<Rightarrow> bool" where
  "in_grid st v = (0 \<le> fst v \<and> fst v < rows st \<and> 0 \<le> snd v \<and> snd v < cols st)"

definition last_marker :: "state \<Rightarrow> char \<Rightarrow> int \<times> int \<Rightarrow> bool" where
  "last_marker st ch v =
     (in_grid st v \<and> maze st v = ch \<and>
      (\<forall>w. in_grid st w \<and> maze st w = ch \<longrightarrow> fst w < fst v \<or> (fst w = fst v \<and> snd w \<le> snd v)))"

definition grid_ok :: "state \<Rightarrow> bool" where
  "grid_ok st =
     (0 < rows st \<and> rows st \<le> MAXR \<and> 0 < cols st \<and> cols st < MAXC \<and>
      in_grid st (sr st, sc st) \<and> in_grid st (er st, ec st) \<and>
      maze st (sr st, sc st) = CHR ''S'' \<and> maze st (er st, ec st) = CHR ''E'')"

definition same_grid :: "state \<Rightarrow> state \<Rightarrow> bool" where
  "same_grid st st' =
     (maze st' = maze st \<and> rows st' = rows st \<and> cols st' = cols st \<and>
      sr st' = sr st \<and> sc st' = sc st \<and> er st' = er st \<and> ec st' = ec st)"

text \<open>
  Readings of the arrays: the grid as the list of its rows, the current path of the
  depth-first search, the cells written to the slots \<open>0..rear - 1\<close> of the queue, and
  the parent of a cell.
\<close>

definition grid_rows :: "state \<Rightarrow> string list" where
  "grid_rows st =
     map (\<lambda>i. map (\<lambda>j. maze st (int i, int j)) [0..<nat (cols st)]) [0..<nat (rows st)]"

definition path_cells :: "state \<Rightarrow> (int \<times> int) list" where
  "path_cells st = map (\<lambda>i. (current_path_r st (int i), current_path_c st (int i))) [0..<nat (path_len st)]"

definition pushed :: "state \<Rightarrow> (int \<times> int) list" where
  "pushed st = map (\<lambda>i. (qr st (int i), qc st (int i))) [0..<nat (rear st)]"

definition par_of :: "bfs_locals \<Rightarrow> int \<times> int \<Rightarrow> int \<times> int" where
  "par_of lv v = (parent_r lv v, parent_c lv v)"

text \<open>
  The state in which \<open>bfs_shortest\<close> enters its loop, and what is claimed of the
  queue in every state of the loop.
\<close>

definition bfs_init :: "(int \<times> int \<Rightarrow> int) \<Rightarrow> (int \<times> int \<Rightarrow> int) \<Rightarrow> state \<Rightarrow> state \<times> bfs_locals" where
  "bfs_init p_r p_c st =
     (queue_push (sr st) (sc st) (queue_init st),
      \<lparr>visited = (\<lambda>_. 0)((sr st, sc st) := 1),
       parent_r = p_r((sr st, sc st) := -1),
       parent_c = p_c((sr st, sc st) := -1),
       found = 0\<rparr>)"

definition queue_safe :: "state \<Rightarrow> state \<times> bfs_locals \<Rightarrow> bool" where
  "queue_safe g = (\<lambda>(st, lv).
     distinct (pushed st) \<and> set (pushed st) = {v. visited lv v \<noteq> 0} \<and>
     0 \<le> front st \<and> front st \<le> rear st \<and> rear st = int (length (pushed st)) \<and>
     rear st \<le> rows g * cols g \<and> rows g * cols g < QSIZE)"

text \<open>
  The source as text: its lines (the runs between newlines) and the non-empty ones.
  \<open>short_lines\<close> holds of a source that \<open>fgets(line, MAXC, f)\<close> hands over line by line.
  \<open>claimed_loadable\<close> is the condition for success in the words of the specification:
  a non-empty line exists, the retained lines have the length of the first, and an
  \<open>S\<close> and an \<open>E\<close> occur in them.
\<close>

fun lines_of :: "string \<Rightarrow> string list" where
  "lines_of [] = [[]]"
| "lines_of (c # s) =
     (if c = NL then [] # lines_of s
      else (case lines_of s of [] \<Rightarrow> [[c]] | l # ls \<Rightarrow> (c # l) # ls))"

definition nonempty_lines :: "string \<Rightarrow> string list" where
  "nonempty_lines f = filter (\<lambda>l. l \<noteq> []) (lines_of f)"

definition short_lines :: "string \<Rightarrow> bool" where
  "short_lines f = (NUL \<notin> set f \<and> list_all (\<lambda>l. int (length l) < MAXC) (lines_of f))"

definition claimed_loadable :: "string \<Rightarrow> bool" where
  "claimed_loadable f =
     (let ls = take (nat MAXR) (nonempty_lines f)
      in ls \<noteq> [] \<and> list_all (\<lambda>l. length l = length (hd ls)) ls \<and>
         list_ex (\<lambda>l. CHR ''S'' \<in> set l) ls \<and> list_ex (\<lambda>l. CHR ''E'' \<in> set l) ls)"

section \<open>Concrete inputs\<close>

text \<open>
  Small mazes and files for the concrete instances: \<open>demo_file\<close> has the rows \<open>S.#\<close>
  and \<open>..E\<close>, \<open>blocked_file\<close> a wall between start and exit, \<open>multi_file\<close> several
  markers, \<open>tall_file\<close> 105 rows, \<open>wide_file\<close> 106 rows of 150 characters. In
  \<open>flaky_world\<close> and \<open>stale_world\<close> the file is ragged from the second \<open>fopen\<close> on;
  in \<open>stale_world\<close> its first row then has a wall where the start was.
\<close>

definition demo_file :: string where
  "demo_file = ''S.#'' @ [NL] @ ''..E'' @ [NL]"

definition demo_maze :: state where
  "demo_maze = snd (load_maze (Some demo_file) init_state)"

definition multi_file :: string where
  "multi_file = ''SSE'' @ [NL] @ ''ESE''"

definition blocked_file :: string where
  "blocked_file = ''S#E''"

definition blocked_maze :: state where
  "blocked_maze = snd (load_maze (Some blocked_file) init_state)"

definition wide_line :: string where
  "wide_line = ''SE'' @ replicate 148 CHR ''.''"



definition flaky_world :: world where
  "flaky_world =
     \<lparr>rand_seq = (\<lambda>_. 0),
      file_at = (\<lambda>n. if n = 0 then Some ''S.E'' else Some (''S#'' @ [NL] @ ''E'')),
      stack_r = (\<lambda>_. 0), stack_c = (\<lambda>_. 0)\<rparr>"

definition stale_world :: world where
  "stale_world =
     \<lparr>rand_seq = (\<lambda>_. 0),
      file_at = (\<lambda>n. if n = 0 then Some ''S.E'' else Some (''#.E'' @ [NL] @ ''xx'')),
      stack_r = (\<lambda>_. 0), stack_c = (\<lambda>_. 0)\<rparr>"

definition run_summary :: "outcome \<Rightarrow> (int \<times> event list \<times> string list \<times> (int \<times> int) \<times> (int \<times> int)) option" where
  "run_summary out =
     (case out of
        Exit code ev st \<Rightarrow> Some (code, ev, grid_rows st, (sr st, sc st), (er st, ec st))
      | InputEnd \<Rightarrow> None
      | NoReturn \<Rightarrow> None)"

text \<open>
  What a run leaves of the last path of the depth-first search: the exit code, the
  events, the rows of the grid, the cells in \<open>current_path_r/c[0..path_len)\<close> and the
  characters the grid holds at these cells.
\<close>

definition path_summary ::
  "outcome \<Rightarrow> (int \<times> event list \<times> string list \<times> (int \<times> int) list \<times> string) option" where
  "path_summary out =
     (case out of
        Exit code ev st \<Rightarrow>
          Some (code, ev, grid_rows st, path_cells st, map (maze st) (path_cells st))
      | InputEnd \<Rightarrow> None
      | NoReturn \<Rightarrow> None)"

section \<open>Invariants used in the proofs\<close>

text \<open>
  The loader: the bounds the reading loop keeps; the marker scan, where \<open>X\<close> is the
  set of cells scanned so far; and the reading loop over the lines of the source
  instead of the pieces \<open>fgets\<close> returns.
\<close>

definition rows_inv :: "state \<Rightarrow> bool" where
  "rows_inv st = (0 \<le> rows st \<and> rows st \<le> MAXR \<and> (rows st = 0 \<or> (0 < cols st \<and> cols st < MAXC)))"

definition lex_le :: "int \<times> int \<Rightarrow> int \<times> int \<Rightarrow> bool" where
  "lex_le w v = (fst w < fst v \<or> (fst w = fst v \<and> snd w \<le> snd v))"

definition marker_inv :: "state \<Rightarrow> char \<Rightarrow> (int \<times> int) set \<Rightarrow> int \<times> int \<Rightarrow> bool" where
  "marker_inv st ch X v =
     ((fst v = -1 \<and> (\<forall>w\<in>X. maze st w \<noteq> ch)) \<or>
      (v \<in> X \<and> maze st v = ch \<and> (\<forall>w\<in>X. maze st w = ch \<longrightarrow> lex_le w v)))"

definition scan_inv :: "state \<Rightarrow> (int \<times> int) set \<Rightarrow> state \<Rightarrow> bool" where
  "scan_inv st0 X st =
     (maze st = maze st0 \<and> rows st = rows st0 \<and> cols st = cols st0 \<and>
      marker_inv st0 CHR ''S'' X (sr st, sc st) \<and> marker_inv st0 CHR ''E'' X (er st, ec st))"

definition row_cells :: "nat \<Rightarrow> nat \<Rightarrow> (int \<times> int) set" where
  "row_cells i m = {(int i, int j) | j. j < m}"

definition block_cells :: "nat \<Rightarrow> nat \<Rightarrow> (int \<times> int) set" where
  "block_cells n m = {(int i, int j) | i j. i < n \<and> j < m}"

definition plain_line :: "string \<Rightarrow> bool" where
  "plain_line l = (l \<noteq> [] \<and> NL \<notin> set l \<and> NUL \<notin> set l)"

definition stored :: "string \<Rightarrow> state \<Rightarrow> state" where
  "stored l st =
     st\<lparr>maze := strcpy_row (maze st) (rows st) l,
        cols := (if rows st = 0 then int (length l) else cols st),
        rows := rows st + 1\<rparr>"

fun store_rows :: "string list \<Rightarrow> state \<Rightarrow> loop_exit" where
  "store_rows [] st = Continue st"
| "store_rows (l # ls) st =
     (case load_row l st of
        Continue st1 \<Rightarrow> store_rows ls st1
      | Break st1 \<Rightarrow> Break st1
      | Return0 st1 \<Rightarrow> Return0 st1)"

definition loop_result :: "(state \<Rightarrow> bool \<times> state) \<Rightarrow> loop_exit \<Rightarrow> bool \<times> state" where
  "loop_result k e =
     (case e of Continue st1 \<Rightarrow> k st1 | Break st1 \<Rightarrow> (True, st1) | Return0 st1 \<Rightarrow> (False, st1))"

text \<open>
  The depth-first search: what a call that found the exit has appended to the path
  (\<open>Q\<close>), and the results of \<open>dfs_find_one_path\<close> and \<open>dfs_try\<close>; the cells still
  open bound the fuel.
\<close>

definition dfs_found :: "state \<Rightarrow> (int \<times> int \<Rightarrow> int) \<Rightarrow> state \<Rightarrow> (int \<times> int) list \<Rightarrow> bool" where
  "dfs_found st vis st' Q =
     (path_cells st' = path_cells st @ Q \<and> Q \<noteq> [] \<and> last Q = (er st, ec st) \<and>
      successively adjacent Q \<and> distinct Q \<and> (\<forall>v\<in>set Q. vis v = 0))"

definition dfs_post1 ::
  "state \<Rightarrow> (int \<times> int \<Rightarrow> int) \<Rightarrow> int \<Rightarrow> int \<Rightarrow> int \<Rightarrow> state \<Rightarrow> (int \<times> int \<Rightarrow> int) \<Rightarrow> bool" where
  "dfs_post1 st vis r c res st' vis' =
     (same_grid st st' \<and> 0 \<le> path_len st' \<and>
      (if res = 0 then path_cells st' = path_cells st \<and> vis' = vis
       else \<exists>Q. dfs_found st vis st' Q \<and> hd Q = (r, c) \<and> list_all (passable st) (tl Q)))"

definition dfs_post2 ::
  "state \<Rightarrow> (int \<times> int \<Rightarrow> int) \<Rightarrow> int \<Rightarrow> int \<Rightarrow> int \<Rightarrow> state \<Rightarrow> (int \<times> int \<Rightarrow> int) \<Rightarrow> bool" where
  "dfs_post2 st vis r c res st' vis' =
     (same_grid st st' \<and> 0 \<le> path_len st' \<and>
      (if res = 0 then path_cells st' = butlast (path_cells st) \<and> vis' = vis((r, c) := 0)
       else \<exists>Q. dfs_found st vis st' Q \<and> adjacent (r, c) (hd Q) \<and> list_all (passable st) Q))"

definition unvisited :: "state \<Rightarrow> (int \<times> int \<Rightarrow> int) \<Rightarrow> (int \<times> int) set" where
  "unvisited st vis = {v. passable st v \<and> vis v = 0}"

text \<open>
  The breadth-first search. \<open>C\<close> is the list of pushed cells, \<open>l\<close> the level a cell
  was found at, \<open>k\<close> the number of cells whose neighbours have all been looked at,
  \<open>part\<close> the neighbours of the cell at \<open>k\<close> looked at so far. Levels grow along
  \<open>C\<close> by at most one beyond the level at \<open>k\<close>, every cell is one level above its
  parent, and a path of \<open>l v\<close> edges leads to \<open>v\<close>. \<open>bfs_head\<close> is the invariant of
  the \<open>while\<close> loop.
\<close>

definition seq_ok :: "state \<Rightarrow> (int \<times> int) list \<Rightarrow> (int \<times> int \<Rightarrow> int) \<Rightarrow> bool" where
  "seq_ok g C vis =
     (C \<noteq> [] \<and> hd C = (sr g, sc g) \<and> distinct C \<and> set C = {v. vis v \<noteq> 0} \<and>
      (\<forall>v\<in>set C. passable g v))"

definition lev_ok :: "state \<Rightarrow> (int \<times> int \<Rightarrow> nat) \<Rightarrow> (int \<times> int) list \<Rightarrow> nat \<Rightarrow> bool" where
  "lev_ok g l C k =
     (l (sr g, sc g) = 0 \<and> sorted (map l C) \<and> k \<le> length C \<and>
      (k < length C \<longrightarrow> (\<forall>v\<in>set C. l v \<le> l (C ! k) + 1)))"

definition par_ok ::
  "state \<Rightarrow> (int \<times> int \<Rightarrow> nat) \<Rightarrow> (int \<times> int) list \<Rightarrow> (int \<times> int \<Rightarrow> int \<times> int) \<Rightarrow> bool" where
  "par_ok g l C par =
     (\<forall>v\<in>set C. v \<noteq> (sr g, sc g) \<longrightarrow> par v \<in> set C \<and> adjacent (par v) v \<and> l v = l (par v) + 1)"

definition done_ok :: "state \<Rightarrow> (int \<times> int \<Rightarrow> nat) \<Rightarrow> (int \<times> int) list \<Rightarrow> nat \<Rightarrow> bool" where
  "done_ok g l C k =
     (\<forall>v\<in>set (take k C). \<forall>w. adjacent v w \<and> passable g w \<longrightarrow> w \<in> set C \<and> l w \<le> l v + 1)"

definition part_ok ::
  "state \<Rightarrow> (int \<times> int \<Rightarrow> nat) \<Rightarrow> (int \<times> int) list \<Rightarrow> nat \<Rightarrow> (int \<times> int) set \<Rightarrow> bool" where
  "part_ok g l C k part =
     (\<forall>w\<in>part. passable g w \<longrightarrow> w \<in> set C \<and> k < length C \<and> l w \<le> l (C ! k) + 1)"

definition paths_ok :: "state \<Rightarrow> (int \<times> int \<Rightarrow> nat) \<Rightarrow> (int \<times> int) list \<Rightarrow> bool" where
  "paths_ok g l C = (\<forall>v\<in>set C. \<exists>p. is_path g (sr g, sc g) v p \<and> length p = l v + 1)"

definition bfs_inv ::
  "state \<Rightarrow> (int \<times> int \<Rightarrow> nat) \<Rightarrow> (int \<times> int) list \<Rightarrow> nat \<Rightarrow> (int \<times> int) set \<Rightarrow>
   (int \<times> int \<Rightarrow> int) \<Rightarrow> (int \<times> int \<Rightarrow> int \<times> int) \<Rightarrow> bool" where
  "bfs_inv g l C k part vis par =
     (seq_ok g C vis \<and> lev_ok g l C k \<and> par_ok g l C par \<and> done_ok g l C k \<and>
      part_ok g l C k part \<and> paths_ok g l C)"

definition bfs_head :: "state \<Rightarrow> state \<times> bfs_locals \<Rightarrow> bool" where
  "bfs_head g = (\<lambda>(st, lv).
     same_grid g st \<and> 0 \<le> front st \<and> front st \<le> rear st \<and>
     ((found lv \<noteq> 0) = (visited lv (er g, ec g) \<noteq> 0)) \<and>
     (\<exists>l part.
        if found lv = 0
        then bfs_inv g l (pushed st) (nat (front st)) part (visited lv) (par_of lv)
        else 0 < front st \<and>
             bfs_inv g l (pushed st) (nat (front st) - 1) part (visited lv) (par_of lv)))"

section \<open>Properties of the movement\<close>

lemma is_valid_passable: "is_valid st r c = passable st (r, c)"
  by (auto simp: is_valid_def passable_def)

lemma demo_maze_dims: "rows demo_maze = 2" "cols demo_maze = 3"
  by (code_simp, code_simp)

lemma demo_maze_markers:
  "sr demo_maze = 0" "sc demo_maze = 0" "er demo_maze = 1" "ec demo_maze = 2"
  by (code_simp, code_simp, code_simp, code_simp)

lemma demo_maze_cells:
  "maze demo_maze (0, 0) = CHR ''S''" "maze demo_maze (0, 1) = CHR ''.''"
  "maze demo_maze (0, 2) = CHR ''#''" "maze demo_maze (1, 0) = CHR ''.''"
  "maze demo_maze (1, 1) = CHR ''.''" "maze demo_maze (1, 2) = CHR ''E''"
  by (code_simp, code_simp, code_simp, code_simp, code_simp, code_simp)

text \<open>
  C9. A character that is no direction key, or whose target cell is outside the grid or
  a wall, leaves the whole state, and so the player position, as it was; otherwise the
  position moves by exactly the delta of the key and nothing else changes.
\<close>

theorem move_player_frame:
  "(key_delta ch = None \<longrightarrow> move_player ch st = st) \<and>
   (\<forall>a b. key_delta ch = Some (a, b) \<longrightarrow>
      (a, b) \<in> {(-1, 0), (1, 0), (0, -1), (0, 1)} \<and>
      move_player ch st =
        (if passable st (pr st + a, pc st + b)
         then st\<lparr>pr := pr st + a, pc := pc st + b\<rparr> else st))"
  by (auto simp: move_player_def key_delta_def is_valid_passable Let_def)

theorem move_player_frame_witness:
  "move_player CHR ''q'' (demo_maze\<lparr>pr := 0, pc := 0\<rparr>) = demo_maze\<lparr>pr := 0, pc := 0\<rparr> \<and>
   move_player CHR ''w'' (demo_maze\<lparr>pr := 0, pc := 0\<rparr>) = demo_maze\<lparr>pr := 0, pc := 0\<rparr> \<and>
   move_player CHR ''S'' (demo_maze\<lparr>pr := 0, pc := 0\<rparr>) = demo_maze\<lparr>pr := 1, pc := 0\<rparr>"
proof -
  let ?st = "demo_maze\<lparr>pr := 0, pc := 0\<rparr>"
  have k1: "key_delta CHR ''q'' = None" by (simp add: key_delta_def)
  have k2: "key_delta CHR ''w'' = Some (-1, 0)" by (simp add: key_delta_def)
  have k3: "key_delta CHR ''S'' = Some (1, 0)" by (simp add: key_delta_def)
  have p2: "\<not> passable ?st (pr ?st + (-1), pc ?st + 0)" by (simp add: passable_def)
  have p3: "passable ?st (pr ?st + 1, pc ?st + 0)"
    by (simp add: passable_def demo_maze_dims demo_maze_cells)
  from move_player_frame [of "CHR ''q''" ?st] k1
  have "move_player CHR ''q'' ?st = ?st" by simp
  moreover from move_player_frame [of "CHR ''w''" ?st] k2 p2
  have "move_player CHR ''w'' ?st = ?st" by simp
  moreover from move_player_frame [of "CHR ''S''" ?st] k3 p3
  have "move_player CHR ''S'' ?st = demo_maze\<lparr>pr := 1, pc := 0\<rparr>" by simp
  ultimately show ?thesis by simp
qed

section \<open>Properties of the loader\<close>

lemma fgets_chars_fst_length: "length (fst (fgets_chars n s)) \<le> n"
  by (induction n s rule: fgets_chars.induct) (auto split: prod.splits)

lemma fgets_buf_length:
  assumes "fgets MAXC f = Some (buf, f')"
  shows "int (length buf) < MAXC"
proof -
  from assms have "buf = fst (fgets_chars (nat (MAXC - 1)) f)"
    by (auto simp: fgets_def split: if_splits)
  moreover have "length (fst (fgets_chars (nat (MAXC - 1)) f)) \<le> nat (MAXC - 1)"
    by (rule fgets_chars_fst_length)
  ultimately show ?thesis by (simp add: MAXC_def)
qed

lemma c_str_length: "length (c_str buf) \<le> length buf"
  by (simp add: c_str_def length_takeWhile_le)

lemma load_row_rows_inv:
  assumes "rows_inv st" "rows st < MAXR" "int (length buf) < MAXC"
  shows "case load_row buf st of
           Continue st' \<Rightarrow> rows_inv st' \<and> rows st' < MAXR
         | Break st' \<Rightarrow> rows_inv st' \<and> rows st' \<noteq> 0
         | Return0 st' \<Rightarrow> rows_inv st'"
proof -
  have "length (c_str buf) \<le> length buf" by (rule c_str_length)
  moreover have "c_str buf \<noteq> [] \<Longrightarrow> 0 < int (length (c_str buf))" by simp
  ultimately show ?thesis using assms
    by (auto simp: load_row_def rows_inv_def Let_def simp del: length_greater_0_conv of_nat_0_less_iff)
qed

lemma load_loop_rows_inv:
  "rows_inv st \<Longrightarrow> rows st < MAXR \<Longrightarrow> load_loop f st = (b, st') \<Longrightarrow> rows_inv st'"
proof (induction f st rule: load_loop.induct)
  case (1 f st)
  show ?case
  proof (cases "fgets MAXC f")
    case None
    with 1 show ?thesis by (simp add: load_loop.simps)
  next
    case (Some x)
    obtain buf f' where x: "x = (buf, f')" by (cases x)
    have len: "int (length buf) < MAXC" using Some x by (auto dest: fgets_buf_length)
    note row = load_row_rows_inv [OF "1.prems"(1,2) len]
    show ?thesis
    proof (cases "load_row buf st")
      case (Continue st1)
      with row have "rows_inv st1" "rows st1 < MAXR" by auto
      moreover from "1.prems"(3) Some x Continue have "load_loop f' st1 = (b, st')"
        by (simp add: load_loop.simps [of f])
      ultimately show ?thesis using "1.IH" Some x Continue by blast
    next
      case (Break st1)
      with row "1.prems"(3) Some x show ?thesis by (simp add: load_loop.simps [of f])
    next
      case (Return0 st1)
      with row "1.prems"(3) Some x show ?thesis by (simp add: load_loop.simps [of f])
    qed
  qed
qed

lemma marker_inv_step:
  assumes "marker_inv st ch X v" "\<forall>w\<in>X. lex_le w (i, j)" "0 \<le> i"
  shows "marker_inv st ch (insert (i, j) X) (if maze st (i, j) = ch then (i, j) else v)"
  using assms unfolding marker_inv_def lex_le_def by (auto split: if_splits)

lemma scan_cell_inv:
  assumes "scan_inv st0 X st" "\<forall>w\<in>X. lex_le w (i, j)" "0 \<le> i"
  shows "scan_inv st0 (insert (i, j) X) (scan_cell i j st)"
proof -
  from assms(1) have m: "maze st = maze st0" by (simp add: scan_inv_def)
  have s: "(sr (scan_cell i j st), sc (scan_cell i j st)) =
        (if maze st0 (i, j) = CHR ''S'' then (i, j) else (sr st, sc st))"
    by (simp add: scan_cell_def Let_def m)
  have e: "(er (scan_cell i j st), ec (scan_cell i j st)) =
        (if maze st0 (i, j) = CHR ''E'' then (i, j) else (er st, ec st))"
    by (simp add: scan_cell_def Let_def m)
  have f: "maze (scan_cell i j st) = maze st" "rows (scan_cell i j st) = rows st"
    "cols (scan_cell i j st) = cols st"
    by (simp_all add: scan_cell_def Let_def)
  from assms have "marker_inv st0 CHR ''S'' (insert (i, j) X) (sr (scan_cell i j st), sc (scan_cell i j st))"
    unfolding s scan_inv_def by (intro marker_inv_step) auto
  moreover from assms have "marker_inv st0 CHR ''E'' (insert (i, j) X) (er (scan_cell i j st), ec (scan_cell i j st))"
    unfolding e scan_inv_def by (intro marker_inv_step) auto
  ultimately show ?thesis using assms(1) f by (simp add: scan_inv_def)
qed

lemma row_cells_Suc: "row_cells i (Suc m) = insert (int i, int m) (row_cells i m)"
  by (auto simp: row_cells_def less_Suc_eq)

lemma block_cells_Suc: "block_cells (Suc n) m = block_cells n m \<union> row_cells n m"
  by (auto simp: block_cells_def row_cells_def less_Suc_eq)

lemma scan_row_inv:
  assumes "scan_inv st0 X st" "\<forall>w\<in>X. fst w < int i"
  shows "scan_inv st0 (X \<union> row_cells i m) (fold (\<lambda>j. scan_cell (int i) (int j)) [0..<m] st)"
proof (induction m)
  case 0
  from assms(1) show ?case by (simp add: row_cells_def)
next
  case (Suc m)
  have "\<forall>w\<in>X \<union> row_cells i m. lex_le w (int i, int m)"
    using assms(2) by (auto simp: row_cells_def lex_le_def)
  from scan_cell_inv [OF Suc this] show ?case
    by (simp add: row_cells_Suc)
qed

lemma scan_rows_inv:
  assumes "scan_inv st0 {} st"
  shows "scan_inv st0 (block_cells n m)
           (fold (\<lambda>i. fold (\<lambda>j. scan_cell (int i) (int j)) [0..<m]) [0..<n] st)"
proof (induction n)
  case 0
  from assms show ?case by (simp add: block_cells_def)
next
  case (Suc n)
  have "\<forall>w\<in>block_cells n m. fst w < int n" by (auto simp: block_cells_def)
  from scan_row_inv [OF Suc this] show ?case
    by (simp add: block_cells_Suc)
qed

lemma block_cells_grid:
  "0 \<le> rows st \<Longrightarrow> 0 \<le> cols st \<Longrightarrow> block_cells (nat (rows st)) (nat (cols st)) = {v. in_grid st v}"
proof (safe)
  fix a b assume "0 \<le> rows st" "0 \<le> cols st" "(a, b) \<in> block_cells (nat (rows st)) (nat (cols st))"
  then show "in_grid st (a, b)" by (auto simp: block_cells_def in_grid_def)
next
  fix a b assume "in_grid st (a, b)"
  then have "(a, b) = (int (nat a), int (nat b))" "nat a < nat (rows st)" "nat b < nat (cols st)"
    by (auto simp: in_grid_def)
  then show "(a, b) \<in> block_cells (nat (rows st)) (nat (cols st))"
    unfolding block_cells_def by blast
qed

lemma scan_markers_inv:
  assumes "sr st = -1" "er st = -1" "0 \<le> rows st" "0 \<le> cols st"
  shows "scan_inv st {v. in_grid st v} (scan_markers st)"
proof -
  have "scan_inv st {} st" using assms by (simp add: scan_inv_def marker_inv_def)
  from scan_rows_inv [OF this, of "nat (rows st)" "nat (cols st)"] show ?thesis
    by (simp add: scan_markers_def block_cells_grid assms)
qed

lemma marker_inv_grid:
  assumes "marker_inv st ch {v. in_grid st v} v"
  shows "(fst v = -1 \<longleftrightarrow> \<not> (\<exists>w. in_grid st w \<and> maze st w = ch))"
    and "fst v \<noteq> -1 \<Longrightarrow> last_marker st ch v"
  using assms unfolding marker_inv_def last_marker_def lex_le_def in_grid_def
  by (cases v; fastforce)+

lemma last_marker_cong:
  "maze st' = maze st \<Longrightarrow> rows st' = rows st \<Longrightarrow> cols st' = cols st \<Longrightarrow>
   last_marker st' ch v = last_marker st ch v"
  by (simp add: last_marker_def in_grid_def)

lemma load_maze_after_loop:
  assumes loop: "load_loop f (st\<lparr>rows := 0\<rparr>) = (True, st1)" and r: "rows st1 \<noteq> 0"
  obtains st2 where
    "load_maze (Some f) st = (if sr st2 = -1 \<or> er st2 = -1 then 0 else 1, st2)"
    "maze st2 = maze st1" "rows st2 = rows st1" "cols st2 = cols st1"
    "rows_inv st2"
    "sr st2 = -1 \<longleftrightarrow> \<not> (\<exists>w. in_grid st1 w \<and> maze st1 w = CHR ''S'')"
    "er st2 = -1 \<longleftrightarrow> \<not> (\<exists>w. in_grid st1 w \<and> maze st1 w = CHR ''E'')"
    "sr st2 \<noteq> -1 \<longrightarrow> last_marker st2 CHR ''S'' (sr st2, sc st2)"
    "er st2 \<noteq> -1 \<longrightarrow> last_marker st2 CHR ''E'' (er st2, ec st2)"
proof -
  define s where "s = st1\<lparr>sr := -1, sc := -1, er := -1, ec := -1\<rparr>"
  define st2 where "st2 = scan_markers s"
  have sf: "maze s = maze st1" "rows s = rows st1" "cols s = cols st1" "sr s = -1" "er s = -1"
    by (simp_all add: s_def)
  have "rows_inv (st\<lparr>rows := 0\<rparr>)" "rows (st\<lparr>rows := 0\<rparr>) < MAXR"
    by (simp_all add: rows_inv_def MAXR_def)
  from load_loop_rows_inv [OF this loop] have ri: "rows_inv st1" .
  with r have c: "0 < cols st1" "0 < rows st1" by (auto simp: rows_inv_def)
  have gs: "in_grid s = in_grid st1" by (simp add: in_grid_def fun_eq_iff sf)
  have "scan_inv s {v. in_grid s v} st2"
    unfolding st2_def using c sf by (intro scan_markers_inv) auto
  then have fr: "maze st2 = maze st1" "rows st2 = rows st1" "cols st2 = cols st1"
    and mS: "marker_inv s CHR ''S'' {v. in_grid s v} (sr st2, sc st2)"
    and mE: "marker_inv s CHR ''E'' {v. in_grid s v} (er st2, ec st2)"
    by (simp_all add: scan_inv_def sf)
  have lm: "\<And>ch v. last_marker s ch v = last_marker st2 ch v"
    by (rule last_marker_cong [symmetric]) (simp_all add: fr sf)
  have 1: "load_maze (Some f) st = (if sr st2 = -1 \<or> er st2 = -1 then 0 else 1, st2)"
    using loop r c unfolding st2_def s_def load_maze_def by (simp add: Let_def)
  have 2: "rows_inv st2" using ri fr by (simp add: rows_inv_def)
  have 3: "sr st2 = -1 \<longleftrightarrow> \<not> (\<exists>w. in_grid st1 w \<and> maze st1 w = CHR ''S'')"
    using marker_inv_grid(1) [OF mS] by (simp add: gs sf)
  have 4: "er st2 = -1 \<longleftrightarrow> \<not> (\<exists>w. in_grid st1 w \<and> maze st1 w = CHR ''E'')"
    using marker_inv_grid(1) [OF mE] by (simp add: gs sf)
  have 5: "sr st2 \<noteq> -1 \<longrightarrow> last_marker st2 CHR ''S'' (sr st2, sc st2)"
    using marker_inv_grid(2) [OF mS] by (simp add: lm)
  have 6: "er st2 \<noteq> -1 \<longrightarrow> last_marker st2 CHR ''E'' (er st2, ec st2)"
    using marker_inv_grid(2) [OF mE] by (simp add: lm)
  show ?thesis
    by (rule that [OF 1 fr 2 3 4 5 6])
qed

lemma load_maze_Some:
  "load_maze (Some f) st =
     (case load_loop f (st\<lparr>rows := 0\<rparr>) of
             (False, st1) \<Rightarrow> (0, st1)
           | (True, st1) \<Rightarrow>
               if rows st1 = 0 \<or> cols st1 = 0 then (0, st1)
               else
                 (let st2 = st1\<lparr>sr := -1, sc := -1, er := -1, ec := -1\<rparr>;
                      st3 = scan_markers st2
                  in if sr st3 = -1 \<or> er st3 = -1 then (0, st3) else (1, st3)))"
  by (simp add: load_maze_def)

lemma load_maze_None: "fst (load_maze None st) = 0"
  by (simp add: load_maze_def)

lemma load_maze_Return0:
  "load_loop f (st\<lparr>rows := 0\<rparr>) = (False, st1) \<Longrightarrow> load_maze (Some f) st = (0, st1)"
  by (simp add: load_maze_Some)

lemma load_maze_empty:
  "load_loop f (st\<lparr>rows := 0\<rparr>) = (True, st1) \<Longrightarrow> rows st1 = 0 \<Longrightarrow>
   load_maze (Some f) st = (0, st1)"
  by (simp add: load_maze_Some)

lemma load_maze_success_loop:
  assumes "load_maze src st = (1, st')"
  obtains f st1 where "src = Some f" "load_loop f (st\<lparr>rows := 0\<rparr>) = (True, st1)" "rows st1 \<noteq> 0"
proof (cases src)
  case None
  with assms load_maze_None [of st] show ?thesis by simp
next
  case (Some f)
  obtain b st1 where l: "load_loop f (st\<lparr>rows := 0\<rparr>) = (b, st1)"
    by (cases "load_loop f (st\<lparr>rows := 0\<rparr>)")
  show ?thesis
  proof (cases b)
    case False
    from load_maze_Return0 [of f st st1] l False assms Some show ?thesis by simp
  next
    case True
    have "rows st1 \<noteq> 0"
    proof
      assume "rows st1 = 0"
      from load_maze_empty [of f st st1] this l True assms Some show False by simp
    qed
    show ?thesis
      by (rule that [OF Some _ \<open>rows st1 \<noteq> 0\<close>]) (use l True in simp)
  qed
qed

lemma load_maze_grid_ok:
  assumes "load_maze src st = (1, st')"
  shows "grid_ok st'"
proof -
  from assms obtain f st1 where f: "src = Some f"
    and l: "load_loop f (st\<lparr>rows := 0\<rparr>) = (True, st1)" and r: "rows st1 \<noteq> 0"
    by (rule load_maze_success_loop)
  from l r obtain st2 where
    a: "load_maze (Some f) st = (if sr st2 = -1 \<or> er st2 = -1 then 0 else 1, st2)"
    and b: "maze st2 = maze st1" "rows st2 = rows st1" "cols st2 = cols st1" "rows_inv st2"
    and c: "sr st2 = -1 \<longleftrightarrow> \<not> (\<exists>w. in_grid st1 w \<and> maze st1 w = CHR ''S'')"
           "er st2 = -1 \<longleftrightarrow> \<not> (\<exists>w. in_grid st1 w \<and> maze st1 w = CHR ''E'')"
    and d: "sr st2 \<noteq> -1 \<longrightarrow> last_marker st2 CHR ''S'' (sr st2, sc st2)"
           "er st2 \<noteq> -1 \<longrightarrow> last_marker st2 CHR ''E'' (er st2, ec st2)"
    by (rule load_maze_after_loop)
  have n: "sr st2 \<noteq> -1 \<and> er st2 \<noteq> -1"
  proof (rule ccontr)
    assume "\<not> (sr st2 \<noteq> -1 \<and> er st2 \<noteq> -1)"
    then have "load_maze (Some f) st = (0, st2)" unfolding a by auto
    with assms f show False by simp
  qed
  with a assms f have e: "st' = st2" by simp
  from d n have "last_marker st2 CHR ''S'' (sr st2, sc st2)" "last_marker st2 CHR ''E'' (er st2, ec st2)"
    by simp_all
  then have "in_grid st2 (sr st2, sc st2)" "in_grid st2 (er st2, ec st2)"
    "maze st2 (sr st2, sc st2) = CHR ''S''" "maze st2 (er st2, ec st2) = CHR ''E''"
    by (simp_all add: last_marker_def)
  moreover from b r have "0 < rows st2" "rows st2 \<le> MAXR" "0 < cols st2" "cols st2 < MAXC"
    by (auto simp: rows_inv_def)
  ultimately show ?thesis unfolding e by (simp add: grid_ok_def)
qed

text \<open>
  C8. When the rows were read and the grid holds at least one \<open>S\<close> and at least one
  \<open>E\<close> (one or several of each), loading succeeds, the grid is the one read, and the
  start and the exit are the last \<open>S\<close> and the last \<open>E\<close> in row-major order.
\<close>

theorem load_maze_last_marker:
  assumes "load_loop f (st\<lparr>rows := 0\<rparr>) = (True, st1)" and "rows st1 \<noteq> 0"
    and "\<exists>v. in_grid st1 v \<and> maze st1 v = CHR ''S''"
    and "\<exists>v. in_grid st1 v \<and> maze st1 v = CHR ''E''"
  shows "\<exists>st'. load_maze (Some f) st = (1, st') \<and>
           maze st' = maze st1 \<and> rows st' = rows st1 \<and> cols st' = cols st1 \<and>
           last_marker st' CHR ''S'' (sr st', sc st') \<and>
           last_marker st' CHR ''E'' (er st', ec st')"
proof -
  from assms(1,2) obtain st2 where
    a: "load_maze (Some f) st = (if sr st2 = -1 \<or> er st2 = -1 then 0 else 1, st2)"
    and b: "maze st2 = maze st1" "rows st2 = rows st1" "cols st2 = cols st1" "rows_inv st2"
    and c: "sr st2 = -1 \<longleftrightarrow> \<not> (\<exists>w. in_grid st1 w \<and> maze st1 w = CHR ''S'')"
           "er st2 = -1 \<longleftrightarrow> \<not> (\<exists>w. in_grid st1 w \<and> maze st1 w = CHR ''E'')"
    and d: "sr st2 \<noteq> -1 \<longrightarrow> last_marker st2 CHR ''S'' (sr st2, sc st2)"
           "er st2 \<noteq> -1 \<longrightarrow> last_marker st2 CHR ''E'' (er st2, ec st2)"
    by (rule load_maze_after_loop)
  from c assms(3,4) have n: "sr st2 \<noteq> -1" "er st2 \<noteq> -1" by simp_all
  with a have 1: "load_maze (Some f) st = (1, st2)" by simp
  from d n have 2: "last_marker st2 CHR ''S'' (sr st2, sc st2)"
    "last_marker st2 CHR ''E'' (er st2, ec st2)" by simp_all
  show ?thesis
    by (rule exI [of _ st2]) (intro conjI 1 2 b(1-3))
qed

theorem load_maze_last_marker_witness:
  "\<exists>st'. load_maze (Some multi_file) init_state = (1, st') \<and>
     (sr st', sc st') = (1, 1) \<and> (er st', ec st') = (1, 2) \<and>
     last_marker st' CHR ''S'' (sr st', sc st') \<and>
     last_marker st' CHR ''E'' (er st', ec st')"
proof -
  let ?st1 = "snd (load_loop multi_file (init_state\<lparr>rows := 0\<rparr>))"
  have "fst (load_loop multi_file (init_state\<lparr>rows := 0\<rparr>)) = True" by code_simp
  then have l: "load_loop multi_file (init_state\<lparr>rows := 0\<rparr>) = (True, ?st1)"
    by (simp add: prod_eq_iff)
  have r: "rows ?st1 \<noteq> 0" by code_simp
  have "in_grid ?st1 (0, 0) \<and> maze ?st1 (0, 0) = CHR ''S''" by code_simp
  then have s: "\<exists>v. in_grid ?st1 v \<and> maze ?st1 v = CHR ''S''" by blast
  have "in_grid ?st1 (0, 2) \<and> maze ?st1 (0, 2) = CHR ''E''" by code_simp
  then have e: "\<exists>v. in_grid ?st1 v \<and> maze ?st1 v = CHR ''E''" by blast
  from load_maze_last_marker [OF l r s e] obtain st' where
    a: "load_maze (Some multi_file) init_state = (1, st')"
    and b: "last_marker st' CHR ''S'' (sr st', sc st')" "last_marker st' CHR ''E'' (er st', ec st')"
    by (elim exE conjE)
  have "(let st = snd (load_maze (Some multi_file) init_state) in (sr st, sc st, er st, ec st)) = (1, 1, 1, 2)"
    by code_simp
  with a have "(sr st', sc st') = (1, 1)" "(er st', ec st') = (1, 2)" by (simp_all add: Let_def)
  with a b show ?thesis by (intro exI [of _ st'] conjI)
qed

section \<open>Properties of the depth-first search\<close>

lemma path_cells_length: "length (path_cells st) = nat (path_len st)"
  by (simp add: path_cells_def)

lemma path_cells_push:
  assumes "0 \<le> path_len st"
  shows "path_cells (st\<lparr>current_path_r := (current_path_r st)(path_len st := r),
                        current_path_c := (current_path_c st)(path_len st := c),
                        path_len := path_len st + 1\<rparr>) = path_cells st @ [(r, c)]"
proof -
  from assms have "nat (path_len st + 1) = Suc (nat (path_len st))" by simp
  then show ?thesis using assms by (auto simp: path_cells_def)
qed

lemma path_cells_pop:
  assumes "0 < path_len st"
  shows "path_cells (st\<lparr>path_len := path_len st - 1\<rparr>) = butlast (path_cells st)"
proof -
  from assms obtain n where n: "nat (path_len st) = Suc n" by (cases "nat (path_len st)") auto
  then have "nat (path_len st - 1) = n" by simp
  then show ?thesis using n by (simp add: path_cells_def)
qed

lemma path_cells_cong:
  "path_cells st' = path_cells st \<Longrightarrow> 0 \<le> path_len st \<Longrightarrow> 0 \<le> path_len st' \<Longrightarrow> path_len st' = path_len st"
  using path_cells_length [of st] path_cells_length [of st'] by simp

lemma adjacent_dir: "d \<in> {0, 1, 2, 3} \<Longrightarrow> adjacent (r, c) (r + dr d, c + dc d)"
  by (auto simp: adjacent_def dr_def dc_def)

lemma shuffle_loop_dirs:
  "shuffle_loop rnd i (dirs, k) = (dirs', k') \<Longrightarrow> i < length dirs \<Longrightarrow> set dirs \<subseteq> D \<Longrightarrow>
   set dirs' \<subseteq> D \<and> length dirs' = length dirs"
proof (induction i arbitrary: dirs k)
  case 0
  then show ?case by simp
next
  case (Suc i)
  let ?j = "rnd k mod (Suc i + 1)"
  let ?d2 = "dirs[Suc i := dirs ! ?j, ?j := dirs ! Suc i]"
  have "?j < Suc (Suc i)" by simp
  with Suc.prems(2) have j: "?j < length dirs" by linarith
  from Suc.prems(1) have step: "shuffle_loop rnd i (?d2, Suc k) = (dirs', k')"
    by (simp add: Let_def)
  have "set ?d2 \<subseteq> D"
    using Suc.prems(2,3) j by (auto dest!: set_update_subset_insert [THEN subsetD])
  moreover have "i < length ?d2" using Suc.prems(2) by simp
  ultimately show ?case using Suc.IH [OF step] by simp
qed

lemma shuffle_dirs: "shuffle rnd k = (dirs, k') \<Longrightarrow> set dirs \<subseteq> {0, 1, 2, 3}"
  unfolding shuffle_def by (drule shuffle_loop_dirs [where D = "{0, 1, 2, 3}"]) auto

lemma same_grid_refl: "same_grid st st"
  by (simp add: same_grid_def)

lemma same_grid_trans: "same_grid a b \<Longrightarrow> same_grid b c \<Longrightarrow> same_grid a c"
  by (simp add: same_grid_def)

lemma same_grid_passable: "same_grid st st' \<Longrightarrow> passable st' = passable st"
  by (simp add: same_grid_def passable_def fun_eq_iff)

lemma dfs_found_cong:
  "path_cells st1 = path_cells st \<Longrightarrow> same_grid st st1 \<Longrightarrow>
   dfs_found st1 vis st' Q = dfs_found st vis st' Q"
  by (simp add: dfs_found_def same_grid_def)

lemma dfs_post2_cong:
  assumes "path_cells st1 = path_cells st" "same_grid st st1" "dfs_post2 st1 vis r c res st' vis'"
  shows "dfs_post2 st vis r c res st' vis'"
proof -
  from assms(2) have p: "passable st1 = passable st" by (rule same_grid_passable)
  from assms(3) have "same_grid st1 st'" by (simp add: dfs_post2_def)
  with assms(2) have sg: "same_grid st st'" by (rule same_grid_trans)
  have f: "\<And>Q. dfs_found st1 vis st' Q = dfs_found st vis st' Q"
    using assms(1,2) by (rule dfs_found_cong)
  from assms(3) show ?thesis
    unfolding dfs_post2_def f p assms(1) using sg by simp
qed

lemma dfs_post_mutual:
  shows "dfs_find_one_path rnd fuel r c s = Some (res, st', vis', k') \<Longrightarrow>
           0 \<le> path_len (fst s) \<Longrightarrow> fst (snd s) (r, c) = 0 \<Longrightarrow>
           dfs_post1 (fst s) (fst (snd s)) r c res st' vis'"
    and "dfs_try rnd fuel r c ds s = Some (res, st', vis', k') \<Longrightarrow>
           0 < path_len (fst s) \<Longrightarrow> fst (snd s) (r, c) \<noteq> 0 \<Longrightarrow> set ds \<subseteq> {0, 1, 2, 3} \<Longrightarrow>
           dfs_post2 (fst s) (fst (snd s)) r c res st' vis'"
proof (induction rnd fuel r c s and rnd fuel r c ds s arbitrary: res st' vis' k' and res st' vis' k'
       rule: dfs_find_one_path_dfs_try.induct)
  case (1 rnd r c s)
  then show ?case by simp
next
  case (2 rnd fuel r c st vis k)
  let ?st1 = "st\<lparr>current_path_r := (current_path_r st)(path_len st := r),
                    current_path_c := (current_path_c st)(path_len st := c),
                    path_len := path_len st + 1\<rparr>"
  from "2.prems" have pl: "0 \<le> path_len st" and v0: "vis (r, c) = 0" by simp_all
  have pc1: "path_cells ?st1 = path_cells st @ [(r, c)]" using pl by (rule path_cells_push)
  have sg1: "same_grid st ?st1" by (simp add: same_grid_def)
  show ?case
  proof (cases "r = er st \<and> c = ec st")
    case True
    with "2.prems"(1) have e: "res = 1" "st' = ?st1" "vis' = vis" by simp_all
    have "dfs_found st vis ?st1 [(r, c)]"
      using True v0 pc1 by (simp add: dfs_found_def)
    then show ?thesis using e sg1 pl by (auto simp: dfs_post1_def)
  next
    case False
    obtain dirs k1 where sh: "shuffle rnd k = (dirs, k1)" by (cases "shuffle rnd k")
    from "2.prems"(1) False sh
    have t: "dfs_try rnd fuel r c dirs (?st1, vis((r, c) := 1), k1) = Some (res, st', vis', k')"
      by simp
    have "dfs_post2 (fst (?st1, vis((r, c) := 1), k1)) (fst (snd (?st1, vis((r, c) := 1), k1))) r c res st' vis'"
      using False sh pl shuffle_dirs [OF sh]
      by (intro "2.IH" [OF refl _ sh [symmetric] t]) simp_all
    then have p2: "dfs_post2 ?st1 (vis((r, c) := 1)) r c res st' vis'" by simp
    then have sg: "same_grid st st'" and pl': "0 \<le> path_len st'"
      using sg1 by (auto simp: dfs_post2_def intro: same_grid_trans)
    show ?thesis
    proof (cases "res = 0")
      case True
      with p2 have "path_cells st' = butlast (path_cells ?st1)" "vis' = (vis((r, c) := 1))((r, c) := 0)"
        by (simp_all add: dfs_post2_def)
      then have "path_cells st' = path_cells st" "vis' = vis" using pc1 v0 by (simp_all add: fun_eq_iff)
      then show ?thesis using True sg pl' by (simp add: dfs_post1_def)
    next
      case nz: False
      with p2 obtain Q where Q: "dfs_found ?st1 (vis((r, c) := 1)) st' Q" "adjacent (r, c) (hd Q)"
        "list_all (passable ?st1) Q"
        by (auto simp: dfs_post2_def)
      have ps: "passable ?st1 = passable st" using sg1 by (rule same_grid_passable)
      from Q(1) have q: "path_cells st' = path_cells st @ ((r, c) # Q)" "Q \<noteq> []"
        "last Q = (er st, ec st)" "successively adjacent Q" "distinct Q"
        "\<forall>v\<in>set Q. (vis((r, c) := 1)) v = 0"
        by (simp_all add: dfs_found_def pc1)
      from q(6) have ni: "(r, c) \<notin> set Q" and vq: "\<forall>v\<in>set Q. vis v = 0"
        by (auto split: if_splits)
      have "successively adjacent ((r, c) # Q)"
        using q(2,4) Q(2) by (cases Q) simp_all
      with q ni vq v0 have "dfs_found st vis st' ((r, c) # Q)"
        by (simp add: dfs_found_def)
      moreover have "hd ((r, c) # Q) = (r, c)" "list_all (passable st) (tl ((r, c) # Q))"
        using Q(3) ps by simp_all
      ultimately show ?thesis using nz sg pl' unfolding dfs_post1_def by (auto simp del: hd_Cons_tl list.sel)
    qed
  qed
next
  case (3 rnd fuel r c st vis k)
  from "3.prems" have e: "res = 0" "st' = st\<lparr>path_len := path_len st - 1\<rparr>" "vis' = vis((r, c) := 0)"
    and pl: "0 < path_len st" by simp_all
  from pl have "path_cells st' = butlast (path_cells st)" unfolding e by (rule path_cells_pop)
  then show ?case using e pl by (simp add: dfs_post2_def same_grid_def fun_eq_iff)
next
  case (4 rnd fuel r c d ds st vis k)
  let ?nr = "r + dr d" and ?nc = "c + dc d"
  from "4.prems" have pl: "0 < path_len st" and v1: "vis (r, c) \<noteq> 0"
    and d: "d \<in> {0, 1, 2, 3}" and ds: "set ds \<subseteq> {0, 1, 2, 3}" by simp_all
  show ?case
  proof (cases "is_valid st ?nr ?nc \<and> vis (?nr, ?nc) = 0")
    case False
    with "4.prems"(1) have "dfs_try rnd fuel r c ds (st, vis, k) = Some (res, st', vis', k')"
      by (simp add: Let_def)
    from "4.IH"(3) [OF refl refl False this] pl v1 ds show ?thesis by simp
  next
    case True
    then have pv: "passable st (?nr, ?nc)" and v0: "vis (?nr, ?nc) = 0"
      by (simp_all add: is_valid_passable)
    show ?thesis
    proof (cases "dfs_find_one_path rnd fuel ?nr ?nc (st, vis, k)")
      case None
      with "4.prems"(1) True show ?thesis by (simp add: Let_def)
    next
      case (Some x)
      obtain res1 st1 vis1 k1 where x: "x = (res1, st1, vis1, k1)" by (cases x)
      from "4.IH"(1) [OF refl refl True, of res1 st1 vis1 k1] Some x pl v0
      have p1: "dfs_post1 st vis ?nr ?nc res1 st1 vis1" by simp
      show ?thesis
      proof (cases "res1 = 0")
        case nz: False
        with "4.prems"(1) True Some x have e: "res = 1" "st' = st1" "vis' = vis1"
          by (simp_all add: Let_def)
        from p1 nz obtain Q where Q: "dfs_found st vis st1 Q" "hd Q = (?nr, ?nc)"
          "list_all (passable st) (tl Q)" and sg: "same_grid st st1" "0 \<le> path_len st1"
          by (auto simp: dfs_post1_def)
        from Q(1) have "Q \<noteq> []" by (simp add: dfs_found_def)
        with Q(2,3) pv have "list_all (passable st) Q" by (cases Q) simp_all
        moreover have "adjacent (r, c) (hd Q)" using Q(2) d by (simp add: adjacent_dir)
        ultimately show ?thesis using Q(1) sg e unfolding dfs_post2_def by auto
      next
        case z: True
        with "4.prems"(1) True Some x
        have t: "dfs_try rnd fuel r c ds (st1, vis1, k1) = Some (res, st', vis', k')"
          by (simp add: Let_def)
        from p1 z have r1: "same_grid st st1" "0 \<le> path_len st1" "path_cells st1 = path_cells st"
          "vis1 = vis" by (simp_all add: dfs_post1_def)
        from r1(3) r1(2) pl have pl1: "path_len st1 = path_len st"
          by (intro path_cells_cong) simp_all
        have "dfs_post2 (fst (st1, vis1, k1)) (fst (snd (st1, vis1, k1))) r c res st' vis'"
          using pl pl1 v1 r1(4) ds z
          by (intro "4.IH"(2) [OF refl refl True Some [unfolded x] _ _ t]) simp_all
        then have "dfs_post2 st1 vis r c res st' vis'" using r1(4) by simp
        with r1(3) r1(1) show ?thesis by (simp add: dfs_post2_cong)
      qed
    qed
  qed
qed

lemma path_cells_nth:
  "0 \<le> i \<Longrightarrow> i < path_len st \<Longrightarrow>
   path_cells st ! nat i = (current_path_r st i, current_path_c st i)"
  by (simp add: path_cells_def)

text \<open>
  C5. A call of \<open>dfs_find_one_path\<close> on a cell that is not marked (the guard of every
  recursive call, and the fresh array of the top-level call) that returns 0 leaves the
  visited array, \<open>path_len\<close> and the path entries below \<open>path_len\<close> as they were.
\<close>

theorem dfs_failure_restores:
  assumes "dfs_find_one_path rnd fuel r c (st, vis, k) = Some (0, st', vis', k')"
    and "0 \<le> path_len st" and "vis (r, c) = 0"
  shows "vis' = vis \<and> path_len st' = path_len st \<and>
         (\<forall>i. 0 \<le> i \<and> i < path_len st \<longrightarrow>
            current_path_r st' i = current_path_r st i \<and>
            current_path_c st' i = current_path_c st i)"
proof -
  from dfs_post_mutual(1) [OF assms(1)] assms(2,3)
  have p: "dfs_post1 st vis r c 0 st' vis'" by simp
  then have v: "vis' = vis" and pc: "path_cells st' = path_cells st" and nn: "0 \<le> path_len st'"
    by (simp_all add: dfs_post1_def)
  from pc assms(2) nn have pl: "path_len st' = path_len st" by (rule path_cells_cong)
  have "current_path_r st' i = current_path_r st i \<and> current_path_c st' i = current_path_c st i"
    if "0 \<le> i" "i < path_len st" for i
  proof -
    from that pl have "path_cells st' ! nat i = (current_path_r st' i, current_path_c st' i)"
      by (intro path_cells_nth) simp_all
    moreover from that have "path_cells st ! nat i = (current_path_r st i, current_path_c st i)"
      by (rule path_cells_nth)
    ultimately show ?thesis using pc by simp
  qed
  with v pl show ?thesis by blast
qed

theorem dfs_failure_restores_witness:
  "\<exists>st' vis' k'.
     dfs_find_one_path (\<lambda>_. 0) 4 0 0 (blocked_maze\<lparr>path_len := 0\<rparr>, (\<lambda>_. 0), 0) = Some (0, st', vis', k') \<and>
     vis' = (\<lambda>_. 0) \<and> path_len st' = 0"
proof -
  let ?call = "dfs_find_one_path (\<lambda>_. 0) 4 0 0 (blocked_maze\<lparr>path_len := 0\<rparr>, (\<lambda>_. 0), 0)"
  have "map_option fst ?call = Some 0" by code_simp
  then obtain st' vis' k' where r: "?call = Some (0, st', vis', k')" by (cases ?call) auto
  from dfs_failure_restores [OF r] have "vis' = (\<lambda>_. 0) \<and> path_len st' = 0" by simp
  with r show ?thesis by blast
qed

lemma dfs_top_level_path:
  assumes "passable st (sr st, sc st)"
    and "dfs_find_one_path rnd fuel (sr st) (sc st) (st\<lparr>path_len := 0\<rparr>, (\<lambda>_. 0), k) = Some (res, st', vis', k')"
    and "res \<noteq> 0"
  shows "is_path st (sr st, sc st) (er st, ec st) (path_cells st') \<and> distinct (path_cells st')"
proof -
  let ?s = "st\<lparr>path_len := 0\<rparr>"
  from dfs_post_mutual(1) [OF assms(2)]
  have "dfs_post1 ?s (\<lambda>_. 0) (sr st) (sc st) res st' vis'" by simp
  with assms(3) obtain Q where Q: "dfs_found ?s (\<lambda>_. 0) st' Q" "hd Q = (sr st, sc st)"
    "list_all (passable ?s) (tl Q)"
    by (auto simp: dfs_post1_def)
  have ps: "passable ?s = passable st" by (simp add: passable_def fun_eq_iff)
  have "path_cells ?s = []" by (simp add: path_cells_def)
  with Q(1) have q: "path_cells st' = Q" "Q \<noteq> []" "last Q = (er st, ec st)"
    "successively adjacent Q" "distinct Q"
    by (simp_all add: dfs_found_def)
  from q(2) Q(2,3) assms(1) have "list_all (passable st) Q" unfolding ps by (cases Q) simp_all
  with q Q(2) show ?thesis by (simp add: is_path_def)
qed

lemma grid_ok_start_passable: "grid_ok st \<Longrightarrow> passable st (sr st, sc st)"
  by (simp add: grid_ok_def passable_def in_grid_def)

lemma grid_ok_exit_passable: "grid_ok st \<Longrightarrow> passable st (er st, ec st)"
  by (simp add: grid_ok_def passable_def in_grid_def)

text \<open>
  On a maze that \<open>load_maze\<close> has accepted, the path a successful top-level call (fresh
  visited array, \<open>path_len = 0\<close>, start cell) leaves in \<open>current_path_r/c[0..path_len)\<close>
  starts at the start, ends at the exit, holds only cells inside the grid that are no
  walls, moves by one cardinal step between consecutive cells, and repeats no cell.
  The start cell itself is never tested by the search: that it is no wall is what the
  loader has established.
\<close>

lemma dfs_loaded_path_ok:
  assumes "load_maze src st0 = (1, st)"
    and "dfs_find_one_path rnd fuel (sr st) (sc st) (st\<lparr>path_len := 0\<rparr>, (\<lambda>_. 0), k) = Some (res, st', vis', k')"
    and "res \<noteq> 0"
  shows "path_cells st' \<noteq> [] \<and> hd (path_cells st') = (sr st, sc st) \<and>
         last (path_cells st') = (er st, ec st) \<and>
         (\<forall>v\<in>set (path_cells st'). 0 \<le> fst v \<and> fst v < rows st \<and> 0 \<le> snd v \<and> snd v < cols st \<and>
            maze st v \<noteq> CHR ''#'') \<and>
         successively adjacent (path_cells st') \<and> distinct (path_cells st')"
proof -
  from assms(1) have "grid_ok st" by (rule load_maze_grid_ok)
  then have "passable st (sr st, sc st)" by (rule grid_ok_start_passable)
  from dfs_top_level_path [OF this assms(2,3)] show ?thesis
    by (simp add: is_path_def list_all_iff passable_def)
qed

lemma demo_maze_loaded: "load_maze (Some demo_file) init_state = (1, demo_maze)"
proof -
  have "fst (load_maze (Some demo_file) init_state) = 1" by code_simp
  then show ?thesis by (simp add: demo_maze_def prod_eq_iff)
qed

lemma dfs_loaded_path_demo:
  "\<exists>st' vis' k'.
     dfs_find_one_path (\<lambda>_. 0) 6 (sr demo_maze) (sc demo_maze) (demo_maze\<lparr>path_len := 0\<rparr>, (\<lambda>_. 0), 0)
       = Some (1, st', vis', k') \<and>
     path_cells st' = [(0, 0), (1, 0), (1, 1), (1, 2)] \<and>
     hd (path_cells st') = (sr demo_maze, sc demo_maze) \<and>
     last (path_cells st') = (er demo_maze, ec demo_maze) \<and>
     successively adjacent (path_cells st') \<and> distinct (path_cells st')"
proof -
  let ?call = "dfs_find_one_path (\<lambda>_. 0) 6 (sr demo_maze) (sc demo_maze) (demo_maze\<lparr>path_len := 0\<rparr>, (\<lambda>_. 0), 0)"
  have "map_option (\<lambda>(res, st', vis', k'). (res, path_cells st')) ?call
          = Some (1, [(0, 0), (1, 0), (1, 1), (1, 2)])" by code_simp
  then obtain st' vis' k' where r: "?call = Some (1, st', vis', k')"
    and p: "path_cells st' = [(0, 0), (1, 0), (1, 1), (1, 2)]"
    by (cases ?call) auto
  from dfs_loaded_path_ok [OF demo_maze_loaded r] have
    "hd (path_cells st') = (sr demo_maze, sc demo_maze) \<and>
     last (path_cells st') = (er demo_maze, ec demo_maze) \<and>
     successively adjacent (path_cells st') \<and> distinct (path_cells st')" by simp
  with r p show ?thesis by blast
qed

lemma passable_subset: "{v. passable st v} \<subseteq> {0..<rows st} \<times> {0..<cols st}"
  by (auto simp: passable_def)

lemma finite_passable: "finite {v. passable st v}"
  by (rule finite_subset [OF passable_subset]) simp

lemma card_passable: "card {v. passable st v} \<le> nat (rows st) * nat (cols st)"
proof -
  have "card {v. passable st v} \<le> card ({0..<rows st} \<times> {0..<cols st})"
    by (rule card_mono [OF _ passable_subset]) simp
  then show ?thesis by (simp add: card_cartesian_product)
qed

lemma finite_unvisited: "finite (unvisited st vis)"
  by (rule finite_subset [OF _ finite_passable [of st]]) (auto simp: unvisited_def)

lemma unvisited_mark:
  assumes "passable st (r, c)" "vis (r, c) = 0"
  shows "card (unvisited st (vis((r, c) := 1))) < card (unvisited st vis)"
proof -
  have "unvisited st (vis((r, c) := 1)) = unvisited st vis - {(r, c)}"
    by (auto simp: unvisited_def)
  moreover have "(r, c) \<in> unvisited st vis" using assms by (simp add: unvisited_def)
  ultimately show ?thesis using card_Diff1_less [OF finite_unvisited [of st vis], of "(r, c)"]
    by simp
qed

lemma unvisited_same_grid: "same_grid st st' \<Longrightarrow> unvisited st' vis = unvisited st vis"
  by (simp add: unvisited_def same_grid_passable)

lemma dfs_total_mutual:
  shows "card (unvisited (fst s) (fst (snd s))) < fuel \<Longrightarrow> 0 \<le> path_len (fst s) \<Longrightarrow>
           fst (snd s) (r, c) = 0 \<Longrightarrow> passable (fst s) (r, c) \<Longrightarrow>
           dfs_find_one_path rnd fuel r c s \<noteq> None"
    and "card (unvisited (fst s) (fst (snd s))) < fuel \<Longrightarrow> 0 < path_len (fst s) \<Longrightarrow>
           fst (snd s) (r, c) \<noteq> 0 \<Longrightarrow> set ds \<subseteq> {0, 1, 2, 3} \<Longrightarrow>
           dfs_try rnd fuel r c ds s \<noteq> None"
proof (induction rnd fuel r c s and rnd fuel r c ds s rule: dfs_find_one_path_dfs_try.induct)
  case (1 rnd r c s)
  then show ?case by simp
next
  case (2 rnd fuel r c st vis k)
  let ?st1 = "st\<lparr>current_path_r := (current_path_r st)(path_len st := r),
                    current_path_c := (current_path_c st)(path_len st := c),
                    path_len := path_len st + 1\<rparr>"
  from "2.prems" have cd: "card (unvisited st vis) < Suc fuel" and pl: "0 \<le> path_len st"
    and v0: "vis (r, c) = 0" and pv: "passable st (r, c)" by simp_all
  show ?case
  proof (cases "r = er st \<and> c = ec st")
    case True
    then show ?thesis by (simp add: Let_def)
  next
    case False
    obtain dirs k1 where sh: "shuffle rnd k = (dirs, k1)" by (cases "shuffle rnd k")
    have sg1: "same_grid st ?st1" by (simp add: same_grid_def)
    have "card (unvisited st (vis((r, c) := 1))) < card (unvisited st vis)"
      using pv v0 by (rule unvisited_mark)
    with cd have "card (unvisited ?st1 (vis((r, c) := 1))) < fuel"
      by (simp add: unvisited_same_grid [OF sg1])
    then have "dfs_try rnd fuel r c dirs (?st1, vis((r, c) := 1), k1) \<noteq> None"
      using False sh pl shuffle_dirs [OF sh]
      by (intro "2.IH" [OF refl _ sh [symmetric]]) (simp_all add: fun_upd_def)
    with False sh show ?thesis by (simp add: Let_def)
  qed
next
  case (3 rnd fuel r c st vis k)
  then show ?case by simp
next
  case (4 rnd fuel r c d ds st vis k)
  let ?nr = "r + dr d" and ?nc = "c + dc d"
  from "4.prems" have cd: "card (unvisited st vis) < fuel" and pl: "0 < path_len st"
    and v1: "vis (r, c) \<noteq> 0" and ds: "set ds \<subseteq> {0, 1, 2, 3}" by simp_all
  show ?case
  proof (cases "is_valid st ?nr ?nc \<and> vis (?nr, ?nc) = 0")
    case False
    from "4.IH"(3) [OF refl refl False] cd pl v1 ds
    have "dfs_try rnd fuel r c ds (st, vis, k) \<noteq> None" by simp
    with False show ?thesis by (auto simp: Let_def)
  next
    case True
    then have pv: "passable st (?nr, ?nc)" and v0: "vis (?nr, ?nc) = 0"
      by (simp_all add: is_valid_passable)
    from "4.IH"(1) [OF refl refl True] cd pl v0 pv
    have "dfs_find_one_path rnd fuel ?nr ?nc (st, vis, k) \<noteq> None" by simp
    then obtain res1 st1 vis1 k1 where
      x: "dfs_find_one_path rnd fuel ?nr ?nc (st, vis, k) = Some (res1, st1, vis1, k1)"
      by (cases "dfs_find_one_path rnd fuel ?nr ?nc (st, vis, k)") auto
    show ?thesis
    proof (cases "res1 = 0")
      case False
      with True x show ?thesis by (simp add: Let_def)
    next
      case z: True
      from dfs_post_mutual(1) [OF x] pl v0 have "dfs_post1 st vis ?nr ?nc res1 st1 vis1" by simp
      with z have r1: "same_grid st st1" "0 \<le> path_len st1" "path_cells st1 = path_cells st"
        "vis1 = vis" by (simp_all add: dfs_post1_def)
      from r1(3) r1(2) pl have pl1: "path_len st1 = path_len st"
        by (intro path_cells_cong) simp_all
      have "dfs_try rnd fuel r c ds (st1, vis1, k1) \<noteq> None"
        using cd pl pl1 v1 r1(4) ds z unvisited_same_grid [OF r1(1), of vis]
        by (intro "4.IH"(2) [OF refl refl True x]) simp_all
      with True x z show ?thesis by (simp add: Let_def)
    qed
  qed
qed

lemma dfs_total:
  assumes "grid_ok st" "nat (rows st) * nat (cols st) < fuel"
  shows "\<exists>res st' vis' k'.
           dfs_find_one_path rnd fuel (sr st) (sc st) (st\<lparr>path_len := 0\<rparr>, (\<lambda>_. 0), k) = Some (res, st', vis', k')"
proof -
  let ?s = "st\<lparr>path_len := 0\<rparr>"
  have sg: "same_grid st ?s" by (simp add: same_grid_def)
  have "unvisited ?s (\<lambda>_. 0) \<subseteq> {v. passable st v}"
    by (auto simp: unvisited_def same_grid_passable [OF sg])
  then have "card (unvisited ?s (\<lambda>_. 0)) \<le> card {v. passable st v}"
    by (intro card_mono finite_passable)
  with card_passable [of st] assms(2) have "card (unvisited ?s (\<lambda>_. 0)) < fuel" by simp
  moreover have "passable ?s (sr st, sc st)"
    using grid_ok_start_passable [OF assms(1)] by (simp add: same_grid_passable [OF sg])
  ultimately have "dfs_find_one_path rnd fuel (sr st) (sc st) (?s, (\<lambda>_. 0), k) \<noteq> None"
    by (intro dfs_total_mutual(1)) simp_all
  then show ?thesis by (cases "dfs_find_one_path rnd fuel (sr st) (sc st) (?s, (\<lambda>_. 0), k)") auto
qed

section \<open>Properties of the breadth-first search\<close>

lemma is_path_single: "passable g a \<Longrightarrow> is_path g a a [a]"
  by (simp add: is_path_def)

lemma is_path_snoc:
  "is_path g a b p \<Longrightarrow> adjacent b c \<Longrightarrow> passable g c \<Longrightarrow> is_path g a c (p @ [c])"
  by (cases p rule: rev_cases) (auto simp: is_path_def successively_append_iff hd_append)

lemma is_path_snocD:
  assumes "is_path g a c (p @ [c'])" "p \<noteq> []"
  shows "is_path g a (last p) p \<and> adjacent (last p) c' \<and> passable g c' \<and> c = c'"
  using assms by (cases p rule: rev_cases) (auto simp: is_path_def successively_append_iff hd_append)

lemma bfs_inv_init:
  assumes "passable g (sr g, sc g)"
  shows "bfs_inv g (\<lambda>_. 0) [(sr g, sc g)] 0 {} ((\<lambda>_. 0)((sr g, sc g) := 1)) par"
proof -
  have "paths_ok g (\<lambda>_. 0) [(sr g, sc g)]"
    unfolding paths_ok_def using is_path_single [OF assms]
    by (auto intro!: exI [of _ "[(sr g, sc g)]"])
  moreover have "seq_ok g [(sr g, sc g)] ((\<lambda>_. 0)((sr g, sc g) := 1))"
    unfolding seq_ok_def using assms by auto
  ultimately show ?thesis
    by (simp add: bfs_inv_def lev_ok_def par_ok_def done_ok_def part_ok_def)
qed

lemma bfs_inv_skip:
  assumes "bfs_inv g l C k part vis par" "\<not> passable g w"
  shows "bfs_inv g l C k (insert w part) vis par"
  using assms unfolding bfs_inv_def part_ok_def by simp

lemma bfs_inv_seen:
  assumes "bfs_inv g l C k part vis par" "k < length C" "w \<in> set C"
  shows "bfs_inv g l C k (insert w part) vis par"
proof -
  from assms(1) have "lev_ok g l C k" by (simp add: bfs_inv_def)
  with assms(2,3) have "l w \<le> l (C ! k) + 1" by (simp add: lev_ok_def)
  with assms show ?thesis unfolding bfs_inv_def part_ok_def by simp
qed

lemma bfs_inv_drop_part:
  assumes "bfs_inv g l C k part vis par"
  shows "bfs_inv g l C k {} vis par"
  using assms unfolding bfs_inv_def part_ok_def by simp

lemma bfs_inv_new:
  assumes inv: "bfs_inv g l C k part vis par" and k: "k < length C" and nw: "vis w = 0"
    and pw: "passable g w" and adj: "adjacent (C ! k) w"
  shows "bfs_inv g (l(w := l (C ! k) + 1)) (C @ [w]) k (insert w part) (vis(w := 1)) (par(w := C ! k))"
proof -
  let ?s = "(sr g, sc g)" and ?u = "C ! k"
  let ?l = "l(w := l ?u + 1)" and ?C = "C @ [w]" and ?par = "par(w := ?u)"
  from inv have sq: "seq_ok g C vis" and lv: "lev_ok g l C k" and pr: "par_ok g l C par"
    and dk: "done_ok g l C k" and pk: "part_ok g l C k part" and ph: "paths_ok g l C"
    by (simp_all add: bfs_inv_def)
  from sq have C: "C \<noteq> []" "hd C = ?s" "distinct C" "set C = {v. vis v \<noteq> 0}"
    and pass: "\<forall>v\<in>set C. passable g v" unfolding seq_ok_def by blast+
  from lv k have l0: "l ?s = 0" and srt: "sorted (map l C)"
    and bnd: "\<forall>v\<in>set C. l v \<le> l ?u + 1" unfolding lev_ok_def by blast+
  note parC = pr [unfolded par_ok_def] and dn = dk [unfolded done_ok_def]
    and prt = pk [unfolded part_ok_def] and pth = ph [unfolded paths_ok_def]
  from C(4) nw have wC: "w \<notin> set C" by simp
  have sC: "?s \<in> set C" using C(1,2) by (metis hd_in_set)
  have uC: "?u \<in> set C" using k by simp
  have lold: "\<And>v. v \<in> set C \<Longrightarrow> ?l v = l v" using wC by auto
  have ws: "w \<noteq> ?s" using wC sC by auto
  have wu: "w \<noteq> ?u" using wC uC by auto
  have ml: "map ?l C = map l C" using lold by simp
  have nk: "?C ! k = ?u" using k by (simp add: nth_append)
  have tk: "take k ?C = take k C" using k by simp
  have 1: "?C \<noteq> [] \<and> hd ?C = ?s \<and> distinct ?C" using C wC by simp
  have 2: "set ?C = {v. (vis(w := 1)) v \<noteq> 0}" using C(4) by auto
  have 3: "\<forall>v\<in>set ?C. passable g v" using pass pw by simp
  have 4: "?l ?s = 0" using l0 ws by simp
  have 5: "sorted (map ?l ?C)" unfolding map_append ml using srt bnd
    by (auto simp: sorted_append)
  have 6: "k \<le> length ?C" using k by simp
  have 7: "k < length ?C \<longrightarrow> (\<forall>v\<in>set ?C. ?l v \<le> ?l (?C ! k) + 1)"
    using bnd wu lold by (auto simp: nk)
  have 8: "\<forall>v\<in>set ?C. v \<noteq> ?s \<longrightarrow> ?par v \<in> set ?C \<and> adjacent (?par v) v \<and> ?l v = ?l (?par v) + 1"
  proof (intro ballI impI)
    fix v assume v: "v \<in> set ?C" "v \<noteq> ?s"
    show "?par v \<in> set ?C \<and> adjacent (?par v) v \<and> ?l v = ?l (?par v) + 1"
    proof (cases "v = w")
      case True
      then show ?thesis using uC adj wu by simp
    next
      case False
      with v have vC: "v \<in> set C" by simp
      with parC v(2) have "par v \<in> set C" "adjacent (par v) v" "l v = l (par v) + 1" by blast+
      then show ?thesis using False lold [OF vC] lold [of "par v"] by simp
    qed
  qed
  have 9: "\<forall>v\<in>set (take k ?C). \<forall>x. adjacent v x \<and> passable g x \<longrightarrow> x \<in> set ?C \<and> ?l x \<le> ?l v + 1"
  proof (intro ballI allI impI)
    fix v x assume v: "v \<in> set (take k ?C)" and x: "adjacent v x \<and> passable g x"
    from v have vt: "v \<in> set (take k C)" unfolding tk .
    then have vC: "v \<in> set C" by (rule in_set_takeD)
    from dn vt x have "x \<in> set C" "l x \<le> l v + 1" by blast+
    then show "x \<in> set ?C \<and> ?l x \<le> ?l v + 1" using lold vC by simp
  qed
  have 10: "\<forall>x\<in>insert w part. passable g x \<longrightarrow> x \<in> set ?C \<and> k < length ?C \<and> ?l x \<le> ?l (?C ! k) + 1"
  proof (intro ballI impI)
    fix x assume x: "x \<in> insert w part" "passable g x"
    show "x \<in> set ?C \<and> k < length ?C \<and> ?l x \<le> ?l (?C ! k) + 1"
    proof (cases "x = w")
      case True
      then show ?thesis using k wu by (simp add: nk)
    next
      case False
      with x prt have "x \<in> set C" "l x \<le> l ?u + 1" by blast+
      then show ?thesis using k wu lold by (simp add: nk)
    qed
  qed
  have 11: "\<forall>v\<in>set ?C. \<exists>p. is_path g ?s v p \<and> length p = ?l v + 1"
  proof
    fix v assume v: "v \<in> set ?C"
    show "\<exists>p. is_path g ?s v p \<and> length p = ?l v + 1"
    proof (cases "v = w")
      case True
      from pth uC obtain p where p: "is_path g ?s ?u p" "length p = l ?u + 1" by blast
      from is_path_snoc [OF p(1) adj pw] p(2) True show ?thesis
        by (intro exI [of _ "p @ [w]"]) simp
    next
      case False
      with v have vC: "v \<in> set C" by simp
      with pth obtain p where "is_path g ?s v p" "length p = l v + 1" by blast
      with lold [OF vC] show ?thesis by (intro exI [of _ p]) simp
    qed
  qed
  from 1 2 3 have "seq_ok g ?C (vis(w := 1))" unfolding seq_ok_def by blast
  moreover from 4 5 6 7 have "lev_ok g ?l ?C k" unfolding lev_ok_def by blast
  moreover from 8 have "par_ok g ?l ?C ?par" unfolding par_ok_def .
  moreover from 9 have "done_ok g ?l ?C k" unfolding done_ok_def .
  moreover from 10 have "part_ok g ?l ?C k (insert w part)" unfolding part_ok_def .
  moreover from 11 have "paths_ok g ?l ?C" unfolding paths_ok_def .
  ultimately show ?thesis unfolding bfs_inv_def by blast
qed

lemma bfs_inv_advance:
  assumes inv: "bfs_inv g l C k part vis par" and k: "k < length C"
    and all: "\<forall>w. adjacent (C ! k) w \<longrightarrow> w \<in> part"
  shows "bfs_inv g l C (Suc k) {} vis par"
proof -
  from inv have sq: "seq_ok g C vis" and lv: "lev_ok g l C k" and pr: "par_ok g l C par"
    and dk: "done_ok g l C k" and pk: "part_ok g l C k part" and ph: "paths_ok g l C"
    by (simp_all add: bfs_inv_def)
  from lv k have l0: "l (sr g, sc g) = 0" and srt: "sorted (map l C)"
    and bnd: "\<forall>v\<in>set C. l v \<le> l (C ! k) + 1" unfolding lev_ok_def by blast+
  note dn = dk [unfolded done_ok_def] and prt = pk [unfolded part_ok_def]
  have a: "Suc k < length C \<longrightarrow> (\<forall>v\<in>set C. l v \<le> l (C ! Suc k) + 1)"
  proof (intro impI ballI)
    fix v assume sk: "Suc k < length C" and v: "v \<in> set C"
    from srt sk have "l (C ! k) \<le> l (C ! Suc k)"
      using sorted_nth_mono [of "map l C" k "Suc k"] by simp
    with bnd v show "l v \<le> l (C ! Suc k) + 1" by fastforce
  qed
  have b: "\<forall>v\<in>set (take (Suc k) C). \<forall>w. adjacent v w \<and> passable g w \<longrightarrow> w \<in> set C \<and> l w \<le> l v + 1"
  proof (intro ballI allI impI)
    fix v w assume v: "v \<in> set (take (Suc k) C)" and w: "adjacent v w \<and> passable g w"
    from v k have "v \<in> set (take k C) \<or> v = C ! k" by (auto simp: take_Suc_conv_app_nth)
    then show "w \<in> set C \<and> l w \<le> l v + 1"
    proof
      assume "v \<in> set (take k C)" with dn w show ?thesis by blast
    next
      assume "v = C ! k" with all w prt show ?thesis by blast
    qed
  qed
  from l0 srt k a have "lev_ok g l C (Suc k)" unfolding lev_ok_def by simp
  moreover from b have "done_ok g l C (Suc k)" unfolding done_ok_def .
  moreover have "part_ok g l C (Suc k) {}" by (simp add: part_ok_def)
  ultimately show ?thesis using sq pr ph unfolding bfs_inv_def by blast
qed

lemma bfs_inv_walk:
  assumes inv: "bfs_inv g l C k part vis par" and p: "is_path g (sr g, sc g) v p"
  shows "(v \<in> set C \<and> l v + 1 \<le> length p) \<or> (\<exists>q\<in>set (drop k C). l q + 1 < length p)"
  using p
proof (induction p arbitrary: v rule: rev_induct)
  case Nil
  then show ?case by (simp add: is_path_def)
next
  case (snoc x p)
  from inv have sq: "seq_ok g C vis" and lv: "lev_ok g l C k" and dk: "done_ok g l C k"
    by (simp_all add: bfs_inv_def)
  show ?case
  proof (cases "p = []")
    case True
    with snoc.prems have "v = (sr g, sc g)" "x = v" by (auto simp: is_path_def)
    moreover from sq have "(sr g, sc g) \<in> set C" unfolding seq_ok_def by (metis hd_in_set)
    moreover from lv have "l (sr g, sc g) = 0" by (simp add: lev_ok_def)
    ultimately show ?thesis using True by simp
  next
    case False
    from is_path_snocD [OF snoc.prems False]
    have pp: "is_path g (sr g, sc g) (last p) p" and ad: "adjacent (last p) x"
      and px: "passable g x" and vx: "v = x" by simp_all
    from snoc.IH [OF pp] show ?thesis
    proof
      assume a: "last p \<in> set C \<and> l (last p) + 1 \<le> length p"
      have "set C = set (take k C) \<union> set (drop k C)"
        by (metis append_take_drop_id set_append)
      with a have "last p \<in> set (take k C) \<or> last p \<in> set (drop k C)" by blast
      then show ?thesis
      proof
        assume "last p \<in> set (take k C)"
        with dk [unfolded done_ok_def] ad px have "x \<in> set C" "l x \<le> l (last p) + 1" by blast+
        with a vx show ?thesis by simp
      next
        assume "last p \<in> set (drop k C)"
        with a show ?thesis by (intro disjI2 bexI [of _ "last p"]) simp_all
      qed
    next
      assume "\<exists>q\<in>set (drop k C). l q + 1 < length p"
      then obtain q where "q \<in> set (drop k C)" "l q + 1 < length p" by blast
      then show ?thesis by (intro disjI2 bexI [of _ q]) simp_all
    qed
  qed
qed

lemma bfs_inv_closed:
  assumes "bfs_inv g l C (length C) part vis par" "is_path g (sr g, sc g) v p"
  shows "v \<in> set C"
  using bfs_inv_walk [OF assms] by simp

lemma bfs_inv_min:
  assumes inv: "bfs_inv g l C k part vis par" and k: "k < length C" and e: "e \<in> set C"
    and p: "is_path g (sr g, sc g) e p"
  shows "l e + 1 \<le> length p"
proof -
  from inv have lv: "lev_ok g l C k" by (simp add: bfs_inv_def)
  with k e have le: "l e \<le> l (C ! k) + 1" and srt: "sorted (map l C)"
    unfolding lev_ok_def by blast+
  from bfs_inv_walk [OF inv p] show ?thesis
  proof
    assume "e \<in> set C \<and> l e + 1 \<le> length p" then show ?thesis by simp
  next
    assume "\<exists>q\<in>set (drop k C). l q + 1 < length p"
    then obtain q where q: "q \<in> set (drop k C)" "l q + 1 < length p" by blast
    from q(1) obtain i where i: "i < length C - k" "q = C ! (k + i)"
      by (auto simp: in_set_conv_nth)
    with srt have "l (C ! k) \<le> l q"
      using sorted_nth_mono [of "map l C" k "k + i"] by simp
    with le q(2) show ?thesis by simp
  qed
qed

lemma bfs_inv_level0:
  assumes inv: "bfs_inv g l C k part vis par" and v: "v \<in> set C" "l v = 0"
  shows "v = (sr g, sc g)"
proof (rule ccontr)
  assume "v \<noteq> (sr g, sc g)"
  with inv v(1) have "l v = l (par v) + 1" unfolding bfs_inv_def par_ok_def by blast
  with v(2) show False by simp
qed

lemma mark_walk:
  assumes inv: "bfs_inv g l C k part vis (\<lambda>v. (p_r v, p_c v))"
  shows "(cr, cc) \<in> set C \<Longrightarrow> l (cr, cc) = n \<Longrightarrow> sr st = sr g \<Longrightarrow> sc st = sc g \<Longrightarrow>
         \<exists>st' ch. while_option mark_cond (mark_body p_r p_c) (cr, cc, len, st, tr)
                     = Some (sr g, sc g, len + int n, st', ch @ tr) \<and>
                   map l ch = [1..<Suc n] \<and> set ch \<subseteq> set C \<and>
                   successively adjacent ((sr g, sc g) # ch) \<and> last ((sr g, sc g) # ch) = (cr, cc)"
proof (induction n arbitrary: cr cc len st tr)
  case 0
  from bfs_inv_level0 [OF inv "0.prems"(1,2)] have "cr = sr g" "cc = sc g" by simp_all
  with "0.prems"(3,4) have "\<not> mark_cond (cr, cc, len, st, tr)" by (simp add: mark_cond_def)
  then have "while_option mark_cond (mark_body p_r p_c) (cr, cc, len, st, tr) = Some (cr, cc, len, st, tr)"
    by (subst while_option_unfold) simp
  with \<open>cr = sr g\<close> \<open>cc = sc g\<close> show ?case by (intro exI [of _ st] exI [of _ "[]"]) simp
next
  case (Suc n)
  let ?s = "(sr g, sc g)"
  from inv have lv: "lev_ok g l C k" and pr: "par_ok g l C (\<lambda>v. (p_r v, p_c v))"
    by (simp_all add: bfs_inv_def)
  from lv have l0: "l ?s = 0" by (simp add: lev_ok_def)
  with Suc.prems(2) have ne: "(cr, cc) \<noteq> ?s" by auto
  let ?p = "(p_r (cr, cc), p_c (cr, cc))"
  from pr [unfolded par_ok_def] Suc.prems(1) ne
  have pC: "?p \<in> set C" and pa: "adjacent ?p (cr, cc)" and pl: "l (cr, cc) = l ?p + 1" by blast+
  with Suc.prems(2) have ln: "l ?p = n" by simp
  from ne Suc.prems(3,4) have c: "mark_cond (cr, cc, len, st, tr)" by (auto simp: mark_cond_def)
  obtain st1 where b: "mark_body p_r p_c (cr, cc, len, st, tr) = (p_r (cr, cc), p_c (cr, cc), len + 1, st1, (cr, cc) # tr)"
    and s1: "sr st1 = sr g" "sc st1 = sc g"
    using Suc.prems(3,4) by (simp add: mark_body_def Let_def)
  from Suc.IH [OF pC ln s1, of "len + 1" "(cr, cc) # tr"] obtain st' ch where
    w: "while_option mark_cond (mark_body p_r p_c) (p_r (cr, cc), p_c (cr, cc), len + 1, st1, (cr, cc) # tr)
          = Some (sr g, sc g, len + 1 + int n, st', ch @ (cr, cc) # tr)"
    and ch: "map l ch = [1..<Suc n]" "set ch \<subseteq> set C" "successively adjacent (?s # ch)"
      "last (?s # ch) = ?p"
    by blast
  have "while_option mark_cond (mark_body p_r p_c) (cr, cc, len, st, tr)
          = Some (sr g, sc g, len + int (Suc n), st', (ch @ [(cr, cc)]) @ tr)"
    using c b w by (subst while_option_unfold) (simp add: add.commute add.left_commute)
  moreover have "map l (ch @ [(cr, cc)]) = [1..<Suc (Suc n)]"
    using ch(1) Suc.prems(2) by simp
  moreover have "set (ch @ [(cr, cc)]) \<subseteq> set C" using ch(2) Suc.prems(1) by simp
  moreover have "successively adjacent (?s # ch @ [(cr, cc)])"
    using ch(3,4) pa successively_append_iff [of adjacent "?s # ch" "[(cr, cc)]"] by simp
  moreover have "last (?s # ch @ [(cr, cc)]) = (cr, cc)" by simp
  ultimately show ?case by (intro exI [of _ st'] exI [of _ "ch @ [(cr, cc)]"]) simp
qed

lemma pushed_length: "length (pushed st) = nat (rear st)"
  by (simp add: pushed_def)

lemma pushed_nth: "i < nat (rear st) \<Longrightarrow> pushed st ! i = (qr st (int i), qc st (int i))"
  by (simp add: pushed_def)

lemma queue_push_pushed:
  assumes "0 \<le> rear st" "rear st + 1 < QSIZE"
  shows "pushed (queue_push r c st) = pushed st @ [(r, c)]"
    and "rear (queue_push r c st) = rear st + 1"
    and "front (queue_push r c st) = front st"
    and "same_grid st (queue_push r c st)"
proof -
  from assms have m: "(rear st + 1) mod QSIZE = rear st + 1" by simp
  from assms(1) have n: "nat (rear st + 1) = Suc (nat (rear st))" by simp
  show "pushed (queue_push r c st) = pushed st @ [(r, c)]"
    using assms(1) by (auto simp: pushed_def queue_push_def m n)
  show "rear (queue_push r c st) = rear st + 1" by (simp add: queue_push_def m)
  show "front (queue_push r c st) = front st" by (simp add: queue_push_def)
  show "same_grid st (queue_push r c st)" by (simp add: queue_push_def same_grid_def)
qed

lemma seq_ok_bound:
  assumes "grid_ok g" "seq_ok g C vis"
  shows "int (length C) + 1 < QSIZE"
proof -
  from assms(2) have d: "distinct C" and p: "set C \<subseteq> {v. passable g v}"
    unfolding seq_ok_def by blast+
  from d have "length C = card (set C)" by (simp add: distinct_card)
  also have "\<dots> \<le> card {v. passable g v}" by (rule card_mono [OF finite_passable p])
  also have "\<dots> \<le> nat (rows g) * nat (cols g)" by (rule card_passable)
  also have "\<dots> \<le> 105 * 104"
    using assms(1) by (intro mult_le_mono) (auto simp: grid_ok_def MAXR_def MAXC_def)
  finally show ?thesis by (simp add: QSIZE_def MAXR_def MAXC_def)
qed

lemma adjacent_dirs:
  "adjacent (r, c) w \<longleftrightarrow> w \<in> (\<lambda>d. (r + dr d, c + dc d)) ` {0, 1, 2, 3}"
proof -
  obtain a b where w: "w = (a, b)" by (cases w)
  have "adjacent (r, c) (a, b) \<longleftrightarrow> (a, b) \<in> {(r - 1, c), (r + 1, c), (r, c - 1), (r, c + 1)}"
    by (auto simp: adjacent_def)
  moreover have "(\<lambda>d. (r + dr d, c + dc d)) ` {0, 1, 2, 3} = {(r - 1, c), (r + 1, c), (r, c - 1), (r, c + 1)}"
    by (auto simp: dr_def dc_def)
  ultimately show ?thesis unfolding w by simp
qed

lemma bfs_dirs_inv:
  assumes g: "grid_ok g"
  shows "same_grid g st \<Longrightarrow> 0 < front st \<Longrightarrow> front st \<le> rear st \<Longrightarrow>
         bfs_inv g l (pushed st) (nat (front st) - 1) part (visited lv) (par_of lv) \<Longrightarrow>
         found lv = 0 \<Longrightarrow> visited lv (er g, ec g) = 0 \<Longrightarrow>
         (cr, cc) = pushed st ! (nat (front st) - 1) \<Longrightarrow> set ds \<subseteq> {0, 1, 2, 3} \<Longrightarrow>
         bfs_dirs cr cc ds (st, lv) = (st', lv') \<Longrightarrow>
         same_grid g st' \<and> front st' = front st \<and> front st' \<le> rear st' \<and>
         (cr, cc) = pushed st' ! (nat (front st) - 1) \<and>
         ((found lv' \<noteq> 0) = (visited lv' (er g, ec g) \<noteq> 0)) \<and>
         (\<exists>l' part'. bfs_inv g l' (pushed st') (nat (front st) - 1) part' (visited lv') (par_of lv') \<and>
            (found lv' = 0 \<longrightarrow> part \<union> (\<lambda>d. (cr + dr d, cc + dc d)) ` set ds \<subseteq> part'))"
proof (induction ds arbitrary: st lv l part)
  case Nil
  then have "st' = st" "lv' = lv" by simp_all
  with Nil show ?case by (intro conjI exI [of _ l] exI [of _ part]) simp_all
next
  case (Cons d ds)
  let ?k = "nat (front st) - 1" and ?C = "pushed st"
  let ?nr = "cr + dr d" and ?nc = "cc + dc d"
  let ?w = "(?nr, ?nc)"
  note sg = Cons.prems(1) and f0 = Cons.prems(2) and fr = Cons.prems(3) and inv = Cons.prems(4)
    and nf = Cons.prems(5) and ne = Cons.prems(6) and u = Cons.prems(7) and res = Cons.prems(9)
  from Cons.prems(8) have d: "d \<in> {0, 1, 2, 3}" and ds: "set ds \<subseteq> {0, 1, 2, 3}" by simp_all
  have k: "?k < length ?C" using f0 fr by (simp add: pushed_length)
  have ps: "passable st = passable g" using sg by (rule same_grid_passable)
  from inv have sq: "seq_ok g ?C (visited lv)" by (simp add: bfs_inv_def)
  then have vC: "set ?C = {v. visited lv v \<noteq> 0}" by (simp add: seq_ok_def)
  have im: "(\<lambda>d. (cr + dr d, cc + dc d)) ` set (d # ds) = insert ?w ((\<lambda>d. (cr + dr d, cc + dc d)) ` set ds)"
    by simp
  show ?case
  proof (cases "passable g ?w")
    case False
    with res ps have r: "bfs_dirs cr cc ds (st, lv) = (st', lv')"
      by (simp add: Let_def is_valid_passable)
    from bfs_inv_skip [OF inv False] have "bfs_inv g l ?C ?k (insert ?w part) (visited lv) (par_of lv)" .
    from Cons.IH [OF sg f0 fr this nf ne u ds r] show ?thesis unfolding im by blast
  next
    case pw: True
    show ?thesis
    proof (cases "visited lv ?w \<noteq> 0")
      case True
      with res pw ps have r: "bfs_dirs cr cc ds (st, lv) = (st', lv')"
        by (simp add: Let_def is_valid_passable)
      from True vC have "?w \<in> set ?C" by simp
      from bfs_inv_seen [OF inv k this] have "bfs_inv g l ?C ?k (insert ?w part) (visited lv) (par_of lv)" .
      from Cons.IH [OF sg f0 fr this nf ne u ds r] show ?thesis unfolding im by blast
    next
      case False
      then have v0: "visited lv ?w = 0" by simp
      define st1 where "st1 = queue_push ?nr ?nc st"
      define lv1 where "lv1 = lv\<lparr>visited := (visited lv)(?w := 1),
                       parent_r := (parent_r lv)(?w := cr),
                       parent_c := (parent_c lv)(?w := cc)\<rparr>"
      have adj: "adjacent (?C ! ?k) ?w" unfolding u [symmetric] using d by (rule adjacent_dir)
      from bfs_inv_new [OF inv k v0 pw adj]
      have new: "bfs_inv g (l(?w := l (?C ! ?k) + 1)) (?C @ [?w]) ?k (insert ?w part)
                   ((visited lv)(?w := 1)) ((par_of lv)(?w := ?C ! ?k))" .
      then have "seq_ok g (?C @ [?w]) ((visited lv)(?w := 1))" by (simp add: bfs_inv_def)
      from seq_ok_bound [OF g this] f0 fr have rb: "rear st + 1 < QSIZE"
        by (simp add: pushed_length)
      have r0: "0 \<le> rear st" using f0 fr by simp
      note qp = queue_push_pushed [OF r0 rb, of ?nr ?nc, folded st1_def]
      have sg1: "same_grid g st1" using sg qp(4) by (rule same_grid_trans)
      have v1: "visited lv1 = (visited lv)(?w := 1)" by (simp add: lv1_def)
      have p1: "par_of lv1 = (par_of lv)(?w := ?C ! ?k)"
        unfolding u [symmetric] by (auto simp: lv1_def par_of_def fun_eq_iff)
      have f1: "found lv1 = 0" using nf by (simp add: lv1_def)
      define l1 where "l1 = l(?w := l (?C ! ?k) + 1)"
      from new have inv1: "bfs_inv g l1 (pushed st1) ?k (insert ?w part)
                   (visited lv1) (par_of lv1)"
        by (simp only: qp(1) v1 p1 l1_def)
      have fr1: "0 < front st1" "front st1 \<le> rear st1" using f0 fr qp(2,3) by simp_all
      have e1: "er st1 = er g" "ec st1 = ec g" using sg1 by (simp_all add: same_grid_def)
      show ?thesis
      proof (cases "?nr = er g \<and> ?nc = ec g")
        case True
        with res pw ps v0 e1 have r: "st' = st1" "lv' = lv1\<lparr>found := 1\<rparr>"
          by (simp_all add: Let_def is_valid_passable st1_def lv1_def)
        have "par_of lv' = par_of lv1" "visited lv' = visited lv1" "found lv' = 1"
          by (simp_all add: r par_of_def fun_eq_iff)
        moreover have "visited lv1 (er g, ec g) \<noteq> 0" using True by (simp add: v1)
        moreover have "(cr, cc) = pushed st1 ! ?k"
          unfolding qp(1) using u k by (simp add: nth_append)
        ultimately show ?thesis using sg1 fr1 qp(3) inv1 unfolding r(1)
          by (intro conjI exI [of _ l1] exI [of _ "insert ?w part"]) simp_all
      next
        case False
        with res pw ps v0 e1 have r: "bfs_dirs cr cc ds (st1, lv1) = (st', lv')"
          by (auto simp: Let_def is_valid_passable st1_def lv1_def)
        have k1: "nat (front st1) - 1 = ?k" by (simp add: qp(3))
        have ne1: "visited lv1 (er g, ec g) = 0" using False ne by (auto simp: v1)
        have u1: "(cr, cc) = pushed st1 ! (nat (front st1) - 1)"
          unfolding k1 qp(1) using u k by (simp add: nth_append)
        from inv1 have inv1': "bfs_inv g l1 (pushed st1) (nat (front st1) - 1)
             (insert ?w part) (visited lv1) (par_of lv1)" by (simp only: k1)
        from Cons.IH [OF sg1 fr1 inv1' f1 ne1 u1 ds r] show ?thesis
          unfolding im k1 qp(3) by blast
      qed
    qed
  qed
qed

lemma bfs_search_init: "bfs_search p_r p_c st = while_option bfs_cond bfs_body (bfs_init p_r p_c st)"
  by (simp add: bfs_search_def bfs_init_def Let_def)

lemma grid_ok_markers_differ: "grid_ok g \<Longrightarrow> (er g, ec g) \<noteq> (sr g, sc g)"
  by (auto simp: grid_ok_def)

lemma bfs_head_init:
  assumes g: "grid_ok g"
  shows "bfs_head g (bfs_init p_r p_c g)"
proof -
  let ?st1 = "queue_push (sr g) (sc g) (queue_init g)"
  let ?lv1 = "\<lparr>visited = (\<lambda>_. 0)((sr g, sc g) := 1), parent_r = p_r((sr g, sc g) := -1),
       parent_c = p_c((sr g, sc g) := -1), found = 0\<rparr>"
  have q0: "0 \<le> rear (queue_init g)" "rear (queue_init g) + 1 < QSIZE"
    by (simp_all add: queue_init_def QSIZE_def MAXR_def MAXC_def)
  note qp = queue_push_pushed [OF q0, of "sr g" "sc g"]
  have "pushed (queue_init g) = []" by (simp add: pushed_def queue_init_def)
  with qp(1) have C: "pushed ?st1 = [(sr g, sc g)]" by simp
  have fr: "front ?st1 = 0" "rear ?st1 = 1" using qp(2,3) by (simp_all add: queue_init_def)
  have "same_grid g (queue_init g)" by (simp add: same_grid_def queue_init_def)
  then have sg: "same_grid g ?st1" using qp(4) by (rule same_grid_trans)
  have inv: "bfs_inv g (\<lambda>_. 0) (pushed ?st1) (nat (front ?st1)) {} (visited ?lv1) (par_of ?lv1)"
    unfolding C fr using bfs_inv_init [OF grid_ok_start_passable [OF g], of "par_of ?lv1"] by simp
  have ne: "visited ?lv1 (er g, ec g) = 0" using grid_ok_markers_differ [OF g] by simp
  have f: "found ?lv1 = 0" by simp
  show ?thesis unfolding bfs_init_def bfs_head_def prod.case
    using sg fr ne f inv by (intro conjI exI [of _ "\<lambda>_. 0"] exI [of _ "{}"]) simp_all
qed

lemma bfs_body_head:
  assumes g: "grid_ok g" and h: "bfs_head g (st, lv)" and c: "bfs_cond (st, lv)"
  shows "bfs_head g (bfs_body (st, lv)) \<and> front (fst (bfs_body (st, lv))) = front st + 1 \<and>
         front st + 1 < QSIZE"
proof -
  from c have nf: "found lv = 0" and ne: "front st \<noteq> rear st"
    by (simp_all add: bfs_cond_def queue_empty_def)
  from h nf obtain l part where sg: "same_grid g st" and f0: "0 \<le> front st" and fr: "front st \<le> rear st"
    and ev: "visited lv (er g, ec g) = 0"
    and inv: "bfs_inv g l (pushed st) (nat (front st)) part (visited lv) (par_of lv)"
    unfolding bfs_head_def prod.case by auto
  let ?k = "nat (front st)"
  from inv have sq: "seq_ok g (pushed st) (visited lv)" by (simp add: bfs_inv_def)
  from seq_ok_bound [OF g sq] f0 fr have rb: "rear st + 1 < QSIZE" by (simp add: pushed_length)
  from ne fr have flt: "front st < rear st" by simp
  with rb f0 have m: "(front st + 1) mod QSIZE = front st + 1" by simp
  define st1 where "st1 = st\<lparr>front := front st + 1\<rparr>"
  define cr where "cr = qr st (front st)"
  define cc where "cc = qc st (front st)"
  have pop: "queue_pop st = ((cr, cc), st1)" by (simp add: queue_pop_def m st1_def cr_def cc_def)
  have p1: "pushed st1 = pushed st" by (simp add: pushed_def st1_def)
  have sg1: "same_grid g st1" using sg by (simp add: same_grid_def st1_def)
  have fr1: "0 < front st1" "front st1 \<le> rear st1" using f0 flt by (simp_all add: st1_def)
  have k1: "nat (front st1) - 1 = ?k" using f0 by (simp add: st1_def)
  have u: "(cr, cc) = pushed st1 ! (nat (front st1) - 1)"
    unfolding k1 p1 using f0 flt by (simp add: pushed_nth cr_def cc_def)
  from inv have inv1: "bfs_inv g l (pushed st1) (nat (front st1) - 1) part (visited lv) (par_of lv)"
    by (simp only: k1 p1)
  obtain st' lv' where r: "bfs_dirs cr cc [0, 1, 2, 3] (st1, lv) = (st', lv')"
    by (cases "bfs_dirs cr cc [0, 1, 2, 3] (st1, lv)")
  have body: "bfs_body (st, lv) = (st', lv')" by (simp only: bfs_body_def prod.case pop r)
  from bfs_dirs_inv [OF g sg1 fr1 inv1 nf ev u _ r] obtain l' part' where
    sg': "same_grid g st'" and f': "front st' = front st1" and fr': "front st' \<le> rear st'"
    and u': "(cr, cc) = pushed st' ! (nat (front st1) - 1)"
    and fe: "(found lv' \<noteq> 0) = (visited lv' (er g, ec g) \<noteq> 0)"
    and inv': "bfs_inv g l' (pushed st') (nat (front st1) - 1) part' (visited lv') (par_of lv')"
    and pt: "found lv' = 0 \<longrightarrow> part \<union> (\<lambda>d. (cr + dr d, cc + dc d)) ` set [0, 1, 2, 3] \<subseteq> part'"
    by auto
  have fs: "front st' = front st + 1" using f' by (simp add: st1_def)
  have kl: "?k < length (pushed st')" using fr' fs f0 by (simp add: pushed_length)
  have "\<exists>l part. if found lv' = 0
          then bfs_inv g l (pushed st') (nat (front st')) part (visited lv') (par_of lv')
          else 0 < front st' \<and>
               bfs_inv g l (pushed st') (nat (front st') - 1) part (visited lv') (par_of lv')"
  proof (cases "found lv' = 0")
    case True
    have "\<forall>w. adjacent (pushed st' ! ?k) w \<longrightarrow> w \<in> part'"
    proof (intro allI impI)
      fix w assume "adjacent (pushed st' ! ?k) w"
      then have "adjacent (cr, cc) w" using u' by (simp only: k1)
      then have "w \<in> (\<lambda>d. (cr + dr d, cc + dc d)) ` {0, 1, 2, 3}" by (simp only: adjacent_dirs)
      with pt True show "w \<in> part'" by auto
    qed
    from bfs_inv_advance [OF inv' [unfolded k1] kl this]
    have "bfs_inv g l' (pushed st') (Suc ?k) {} (visited lv') (par_of lv')" .
    moreover have "nat (front st') = Suc ?k" using fs f0 by simp
    ultimately show ?thesis using True by (intro exI [of _ l'] exI [of _ "{}"]) simp
  next
    case False
    have "nat (front st') - 1 = ?k" using fs f0 by simp
    with inv' [unfolded k1] False fs f0 show ?thesis
      by (intro exI [of _ l'] exI [of _ part']) simp
  qed
  with sg' fs f0 fr' fe have "bfs_head g (st', lv')"
    unfolding bfs_head_def prod.case by simp
  moreover have "front st + 1 < QSIZE" using flt rb by simp
  ultimately show ?thesis using fs by (simp add: body)
qed

lemma bfs_search_total:
  assumes g: "grid_ok g"
  shows "\<exists>st' lv'. bfs_search p_r p_c g = Some (st', lv') \<and> bfs_head g (st', lv') \<and>
           \<not> bfs_cond (st', lv')"
proof -
  let ?m = "\<lambda>s :: state \<times> bfs_locals. nat (QSIZE - front (fst s))"
  have step: "\<And>s. bfs_head g s \<Longrightarrow> bfs_cond s \<Longrightarrow> bfs_head g (bfs_body s) \<and> ?m (bfs_body s) < ?m s"
  proof -
    fix s :: "state \<times> bfs_locals" assume a: "bfs_head g s" "bfs_cond s"
    obtain st lv where s: "s = (st, lv)" by (cases s)
    from bfs_body_head [OF g a [unfolded s]] show "bfs_head g (bfs_body s) \<and> ?m (bfs_body s) < ?m s"
      unfolding s by simp
  qed
  from measure_while_option_Some [of "bfs_head g" bfs_cond bfs_body ?m, OF step bfs_head_init [OF g]]
  obtain t where t: "while_option bfs_cond bfs_body (bfs_init p_r p_c g) = Some t" by blast
  have "bfs_head g t"
    by (rule while_option_rule [where P = "bfs_head g", OF _ t bfs_head_init [OF g]]) (simp add: step)
  moreover from t have "\<not> bfs_cond t" by (rule while_option_stop)
  ultimately show ?thesis using t by (cases t) (simp add: bfs_search_init)
qed

lemma seq_ok_cells:
  assumes "grid_ok g" "seq_ok g C vis"
  shows "int (length C) \<le> rows g * cols g" and "rows g * cols g < QSIZE"
proof -
  from assms(2) have d: "distinct C" and p: "set C \<subseteq> {v. passable g v}"
    unfolding seq_ok_def by blast+
  from d have "length C = card (set C)" by (simp add: distinct_card)
  also have "\<dots> \<le> card {v. passable g v}" by (rule card_mono [OF finite_passable p])
  also have "\<dots> \<le> nat (rows g) * nat (cols g)" by (rule card_passable)
  finally have le: "length C \<le> nat (rows g) * nat (cols g)" .
  from assms(1) have r: "0 < rows g" "0 < cols g" "rows g \<le> 105" "cols g \<le> 104"
    by (simp_all add: grid_ok_def MAXR_def MAXC_def)
  from r have "int (nat (rows g) * nat (cols g)) = rows g * cols g" by simp
  with le show "int (length C) \<le> rows g * cols g" by linarith
  from r have "rows g * cols g \<le> 105 * 104" by (intro mult_mono) simp_all
  then show "rows g * cols g < QSIZE" by (simp add: QSIZE_def MAXR_def MAXC_def)
qed

lemma bfs_head_queue_safe:
  assumes g: "grid_ok g" and h: "bfs_head g (st, lv)"
  shows "queue_safe g (st, lv)"
proof -
  from h obtain l k part where f: "0 \<le> front st" "front st \<le> rear st"
    and inv: "bfs_inv g l (pushed st) k part (visited lv) (par_of lv)"
    unfolding bfs_head_def prod.case by (auto split: if_splits)
  from inv have sq: "seq_ok g (pushed st) (visited lv)" by (simp add: bfs_inv_def)
  then have "distinct (pushed st)" "set (pushed st) = {v. visited lv v \<noteq> 0}"
    unfolding seq_ok_def by blast+
  moreover have "rear st = int (length (pushed st))" using f by (simp add: pushed_length)
  ultimately show ?thesis using f seq_ok_cells [OF g sq]
    unfolding queue_safe_def prod.case by simp
qed

lemma bfs_head_iterate:
  assumes g: "grid_ok g"
  shows "(\<forall>m<n. bfs_cond ((bfs_body ^^ m) (bfs_init p_r p_c g))) \<Longrightarrow>
         bfs_head g ((bfs_body ^^ n) (bfs_init p_r p_c g))"
proof (induction n)
  case 0
  show ?case using bfs_head_init [OF g] by simp
next
  case (Suc n)
  let ?s = "(bfs_body ^^ n) (bfs_init p_r p_c g)"
  from Suc have h: "bfs_head g ?s" and c: "bfs_cond ?s" by simp_all
  obtain st lv where s: "?s = (st, lv)" by (cases ?s)
  from bfs_body_head [OF g h [unfolded s] c [unfolded s]] show ?case by (simp add: s)
qed

lemma bfs_final_nopath:
  assumes g: "grid_ok g" and h: "bfs_head g (st, lv)" and c: "\<not> bfs_cond (st, lv)"
    and nf: "found lv = 0"
  shows "\<not> (\<exists>p. is_path g (sr g, sc g) (er g, ec g) p)"
proof
  assume "\<exists>p. is_path g (sr g, sc g) (er g, ec g) p"
  then obtain p where p: "is_path g (sr g, sc g) (er g, ec g) p" by blast
  from c nf have e: "front st = rear st" by (simp add: bfs_cond_def queue_empty_def)
  from h nf obtain l part where f0: "0 \<le> front st"
    and ev: "visited lv (er g, ec g) = 0"
    and inv: "bfs_inv g l (pushed st) (nat (front st)) part (visited lv) (par_of lv)"
    unfolding bfs_head_def prod.case by auto
  have "nat (front st) = length (pushed st)" using e by (simp add: pushed_length)
  with inv have "bfs_inv g l (pushed st) (length (pushed st)) part (visited lv) (par_of lv)"
    by simp
  from bfs_inv_closed [OF this p] have "(er g, ec g) \<in> set (pushed st)" .
  moreover from inv have "set (pushed st) = {v. visited lv v \<noteq> 0}"
    unfolding bfs_inv_def seq_ok_def by blast
  ultimately show False using ev by simp
qed

lemma bfs_final_found:
  assumes g: "grid_ok g" and h: "bfs_head g (st, lv)" and fn: "found lv \<noteq> 0"
  shows "\<exists>n st2 tr. mark_shortest_path (parent_r lv) (parent_c lv) st = Some (int n, st2, tr) \<and>
           is_path g (sr g, sc g) (er g, ec g) tr \<and> distinct tr \<and> length tr = n + 1 \<and>
           (\<forall>p. is_path g (sr g, sc g) (er g, ec g) p \<longrightarrow> n + 1 \<le> length p)"
proof -
  let ?s = "(sr g, sc g)" and ?e = "(er g, ec g)" and ?C = "pushed st"
  from h fn obtain l part where sg: "same_grid g st" and f0: "0 < front st" and fr: "front st \<le> rear st"
    and ev: "visited lv ?e \<noteq> 0"
    and inv: "bfs_inv g l ?C (nat (front st) - 1) part (visited lv) (par_of lv)"
    unfolding bfs_head_def prod.case by auto
  let ?k = "nat (front st) - 1"
  have k: "?k < length ?C" using f0 fr by (simp add: pushed_length)
  from inv have sq: "seq_ok g ?C (visited lv)" and lv: "lev_ok g l ?C ?k"
    by (simp_all add: bfs_inv_def)
  from sq have vC: "set ?C = {v. visited lv v \<noteq> 0}" and pC: "\<forall>v\<in>set ?C. passable g v"
    unfolding seq_ok_def by blast+
  from vC ev have eC: "?e \<in> set ?C" by simp
  have po: "par_of lv = (\<lambda>v. (parent_r lv v, parent_c lv v))" by (simp add: par_of_def fun_eq_iff)
  from sg have m: "sr st = sr g" "sc st = sc g" "er st = er g" "ec st = ec g"
    by (simp_all add: same_grid_def)
  from mark_walk [OF inv [unfolded po] eC refl m(1,2), of 0 "[]"] obtain st' ch where
    w: "while_option mark_cond (mark_body (parent_r lv) (parent_c lv)) (er g, ec g, 0, st, [])
          = Some (sr g, sc g, int (l ?e), st', ch)"
    and ch: "map l ch = [1..<Suc (l ?e)]" "set ch \<subseteq> set ?C" "successively adjacent (?s # ch)"
      "last (?s # ch) = ?e"
    by auto
  have ms: "mark_shortest_path (parent_r lv) (parent_c lv) st = Some (int (l ?e), st', ?s # ch)"
    by (simp add: mark_shortest_path_def m w)
  have "passable g ?s" using g by (rule grid_ok_start_passable)
  with ch(2) pC have "list_all (passable g) (?s # ch)" by (auto simp: list_all_iff)
  with ch(3,4) have ip: "is_path g ?s ?e (?s # ch)" by (simp add: is_path_def)
  from lv have "l ?s = 0" by (simp add: lev_ok_def)
  with ch(1) have "map l (?s # ch) = [0..<Suc (l ?e)]" by (simp add: upt_rec [of 0])
  then have "distinct (map l (?s # ch))" by (simp only: distinct_upt)
  then have ds: "distinct (?s # ch)" by (simp only: distinct_map)
  have "length ch = length (map l ch)" by simp
  also have "\<dots> = l ?e" by (simp only: ch(1)) simp
  finally have ln: "length (?s # ch) = l ?e + 1" by simp
  have mn: "\<forall>p. is_path g ?s ?e p \<longrightarrow> l ?e + 1 \<le> length p"
    using bfs_inv_min [OF inv k eC] by blast
  from ms ip ds ln mn show ?thesis by blast
qed

lemma blocked_maze_loaded: "load_maze (Some blocked_file) init_state = (1, blocked_maze)"
proof -
  have "fst (load_maze (Some blocked_file) init_state) = 1" by code_simp
  then show ?thesis by (simp add: blocked_maze_def prod_eq_iff)
qed

text \<open>
  C1. On every successfully loaded grid \<open>bfs_shortest\<close> returns; it reports "No path
  exists!" exactly when no path of passable cells leads from the start to the exit, and
  otherwise the length \<open>n\<close> it prints is the graph distance: some path has \<open>n\<close> edges
  (\<open>n + 1\<close> cells) and none has fewer.
\<close>

theorem bfs_shortest_correct:
  assumes "load_maze src st0 = (1, g)"
  shows "\<exists>rep st' tr. bfs_shortest p_r p_c g = Some (rep, st', tr) \<and>
           (rep = NoPath \<longleftrightarrow> \<not> (\<exists>p. is_path g (sr g, sc g) (er g, ec g) p)) \<and>
           (\<forall>n. rep = Shortest n \<longrightarrow>
              (\<exists>p. is_path g (sr g, sc g) (er g, ec g) p \<and> int (length p) = n + 1) \<and>
              (\<forall>p. is_path g (sr g, sc g) (er g, ec g) p \<longrightarrow> n + 1 \<le> int (length p)))"
proof -
  from assms have g: "grid_ok g" by (rule load_maze_grid_ok)
  from bfs_search_total [OF g, of p_r p_c] obtain st1 lv where
    b: "bfs_search p_r p_c g = Some (st1, lv)" and h: "bfs_head g (st1, lv)"
    and c: "\<not> bfs_cond (st1, lv)" by blast
  show ?thesis
  proof (cases "found lv = 0")
    case True
    from bfs_final_nopath [OF g h c True]
    have n: "\<not> (\<exists>p. is_path g (sr g, sc g) (er g, ec g) p)" .
    have "bfs_shortest p_r p_c g = Some (NoPath, st1, [])" by (simp add: bfs_shortest_def b True)
    with n show ?thesis by (intro exI [of _ NoPath] exI [of _ st1] exI [of _ "[]"]) simp
  next
    case False
    from bfs_final_found [OF g h False] obtain n st2 tr where
      m: "mark_shortest_path (parent_r lv) (parent_c lv) st1 = Some (int n, st2, tr)"
      and ip: "is_path g (sr g, sc g) (er g, ec g) tr" and ln: "length tr = n + 1"
      and mn: "\<forall>p. is_path g (sr g, sc g) (er g, ec g) p \<longrightarrow> n + 1 \<le> length p"
      by blast
    have r: "bfs_shortest p_r p_c g = Some (Shortest (int n), st2, tr)"
      by (simp add: bfs_shortest_def b False m)
    have 1: "\<exists>p. is_path g (sr g, sc g) (er g, ec g) p" using ip by blast
    have 2: "\<exists>p. is_path g (sr g, sc g) (er g, ec g) p \<and> int (length p) = int n + 1"
      using ip ln by (intro exI [of _ tr]) simp
    have 3: "\<forall>p. is_path g (sr g, sc g) (er g, ec g) p \<longrightarrow> int n + 1 \<le> int (length p)"
      using mn by fastforce
    from r 1 2 3 show ?thesis
      by (intro exI [of _ "Shortest (int n)"] exI [of _ st2] exI [of _ tr]) simp
  qed
qed

theorem bfs_shortest_correct_witness:
  "(\<exists>st' tr. bfs_shortest (\<lambda>_. 0) (\<lambda>_. 0) demo_maze = Some (Shortest 3, st', tr) \<and>
      (\<exists>p. is_path demo_maze (sr demo_maze, sc demo_maze) (er demo_maze, ec demo_maze) p \<and>
           int (length p) = 3 + 1) \<and>
      \<not> (\<exists>p. is_path demo_maze (sr demo_maze, sc demo_maze) (er demo_maze, ec demo_maze) p \<and>
           int (length p) < 3 + 1)) \<and>
   (\<exists>st' tr. bfs_shortest (\<lambda>_. 0) (\<lambda>_. 0) blocked_maze = Some (NoPath, st', tr) \<and>
      \<not> (\<exists>p. is_path blocked_maze (sr blocked_maze, sc blocked_maze) (er blocked_maze, ec blocked_maze) p))"
proof
  have e: "map_option fst (bfs_shortest (\<lambda>_. 0) (\<lambda>_. 0) demo_maze) = Some (Shortest 3)"
    by code_simp
  from bfs_shortest_correct [OF demo_maze_loaded, of "\<lambda>_. 0" "\<lambda>_. 0"] obtain rep st' tr where
    r: "bfs_shortest (\<lambda>_. 0) (\<lambda>_. 0) demo_maze = Some (rep, st', tr)"
    and s: "\<forall>n. rep = Shortest n \<longrightarrow>
              (\<exists>p. is_path demo_maze (sr demo_maze, sc demo_maze) (er demo_maze, ec demo_maze) p \<and> int (length p) = n + 1) \<and>
              (\<forall>p. is_path demo_maze (sr demo_maze, sc demo_maze) (er demo_maze, ec demo_maze) p \<longrightarrow> n + 1 \<le> int (length p))"
    by blast
  from e r have rep: "rep = Shortest 3" by simp
  with s have "(\<exists>p. is_path demo_maze (sr demo_maze, sc demo_maze) (er demo_maze, ec demo_maze) p \<and> int (length p) = 3 + 1) \<and>
              (\<forall>p. is_path demo_maze (sr demo_maze, sc demo_maze) (er demo_maze, ec demo_maze) p \<longrightarrow> 3 + 1 \<le> int (length p))"
    by blast
  then have "(\<exists>p. is_path demo_maze (sr demo_maze, sc demo_maze) (er demo_maze, ec demo_maze) p \<and> int (length p) = 3 + 1) \<and>
      \<not> (\<exists>p. is_path demo_maze (sr demo_maze, sc demo_maze) (er demo_maze, ec demo_maze) p \<and> int (length p) < 3 + 1)"
    by fastforce
  with r rep show "\<exists>st' tr. bfs_shortest (\<lambda>_. 0) (\<lambda>_. 0) demo_maze = Some (Shortest 3, st', tr) \<and>
      (\<exists>p. is_path demo_maze (sr demo_maze, sc demo_maze) (er demo_maze, ec demo_maze) p \<and>
           int (length p) = 3 + 1) \<and>
      \<not> (\<exists>p. is_path demo_maze (sr demo_maze, sc demo_maze) (er demo_maze, ec demo_maze) p \<and>
           int (length p) < 3 + 1)"
    by (intro exI [of _ st'] exI [of _ tr]) simp
next
  have e: "map_option fst (bfs_shortest (\<lambda>_. 0) (\<lambda>_. 0) blocked_maze) = Some NoPath"
    by code_simp
  from bfs_shortest_correct [OF blocked_maze_loaded, of "\<lambda>_. 0" "\<lambda>_. 0"] obtain rep st' tr where
    r: "bfs_shortest (\<lambda>_. 0) (\<lambda>_. 0) blocked_maze = Some (rep, st', tr)"
    and s: "rep = NoPath \<longleftrightarrow> \<not> (\<exists>p. is_path blocked_maze (sr blocked_maze, sc blocked_maze) (er blocked_maze, ec blocked_maze) p)"
    by blast
  from e r have "rep = NoPath" by simp
  with r s show "\<exists>st' tr. bfs_shortest (\<lambda>_. 0) (\<lambda>_. 0) blocked_maze = Some (NoPath, st', tr) \<and>
      \<not> (\<exists>p. is_path blocked_maze (sr blocked_maze, sc blocked_maze) (er blocked_maze, ec blocked_maze) p)"
    by (intro exI [of _ st'] exI [of _ tr]) simp
qed



text \<open>
  C10. On a loaded grid the search loop ends, and in every state a run passes (the
  state after any number of iterations made while the loop condition held) the first
  \<open>rear\<close> slots of the queue hold the cells marked visited, each once; \<open>rear\<close> is their
  number, at most \<open>rows * cols\<close>, which is below \<open>QSIZE\<close>, so no push has wrapped around
  and no entry was overwritten.
\<close>

theorem bfs_queue_safe:
  assumes "load_maze src st0 = (1, g)"
  shows "(\<exists>res. bfs_search p_r p_c g = Some res) \<and>
         (\<forall>n. (\<forall>m<n. bfs_cond ((bfs_body ^^ m) (bfs_init p_r p_c g))) \<longrightarrow>
              queue_safe g ((bfs_body ^^ n) (bfs_init p_r p_c g)))"
proof -
  from assms have g: "grid_ok g" by (rule load_maze_grid_ok)
  have "\<exists>res. bfs_search p_r p_c g = Some res" using bfs_search_total [OF g, of p_r p_c] by blast
  moreover have "queue_safe g ((bfs_body ^^ n) (bfs_init p_r p_c g))"
    if "\<forall>m<n. bfs_cond ((bfs_body ^^ m) (bfs_init p_r p_c g))" for n
  proof -
    obtain st lv where s: "(bfs_body ^^ n) (bfs_init p_r p_c g) = (st, lv)"
      by (cases "(bfs_body ^^ n) (bfs_init p_r p_c g)")
    from bfs_head_iterate [OF g that] have "bfs_head g (st, lv)" by (simp only: s)
    from bfs_head_queue_safe [OF g this] show ?thesis by (simp only: s)
  qed
  ultimately show ?thesis by blast
qed

theorem bfs_queue_safe_witness:
  "(\<exists>res. bfs_search (\<lambda>_. 0) (\<lambda>_. 0) demo_maze = Some res) \<and>
   queue_safe demo_maze ((bfs_body ^^ 2) (bfs_init (\<lambda>_. 0) (\<lambda>_. 0) demo_maze))"
proof -
  have c0: "bfs_cond ((bfs_body ^^ 0) (bfs_init (\<lambda>_. 0) (\<lambda>_. 0) demo_maze))" by code_simp
  have c1: "bfs_cond ((bfs_body ^^ 1) (bfs_init (\<lambda>_. 0) (\<lambda>_. 0) demo_maze))" by code_simp
  have "\<forall>m<2. bfs_cond ((bfs_body ^^ m) (bfs_init (\<lambda>_. 0) (\<lambda>_. 0) demo_maze))"
  proof (intro allI impI)
    fix m :: nat assume "m < 2"
    then have "m = 0 \<or> m = 1" by auto
    with c0 c1 show "bfs_cond ((bfs_body ^^ m) (bfs_init (\<lambda>_. 0) (\<lambda>_. 0) demo_maze))" by auto
  qed
  with bfs_queue_safe [OF demo_maze_loaded, of "\<lambda>_. 0" "\<lambda>_. 0"] show ?thesis by blast
qed

section \<open>The loader and the lines of the source\<close>

lemma lines_of_nonempty: "lines_of s \<noteq> []"
  by (induction s) (auto split: list.splits)

lemma lines_of_line: "NL \<notin> set l \<Longrightarrow> lines_of l = [l]"
  by (induction l) auto

lemma lines_of_append: "NL \<notin> set l \<Longrightarrow> lines_of (l @ NL # r) = l # lines_of r"
  by (induction l) auto

lemma fgets_chars_line:
  "NL \<notin> set l \<Longrightarrow> length l < n \<Longrightarrow> fgets_chars n (l @ NL # r) = (l @ [NL], r)"
  by (induction n "l @ NL # r" arbitrary: l rule: fgets_chars.induct) (auto simp: Cons_eq_append_conv)

lemma fgets_chars_full:
  "NL \<notin> set l \<Longrightarrow> length l = n \<Longrightarrow> fgets_chars n (l @ r) = (l, r)"
  by (induction n "l @ r" arbitrary: l rule: fgets_chars.induct) (auto simp: Cons_eq_append_conv)

lemma fgets_chars_eof:
  "NL \<notin> set l \<Longrightarrow> length l \<le> n \<Longrightarrow> fgets_chars n l = (l, [])"
  by (induction n l rule: fgets_chars.induct) auto

lemma NL_not_NUL: "NL \<noteq> NUL"
  by (simp add: NL_def NUL_def)

lemma c_str_id: "NUL \<notin> set l \<Longrightarrow> c_str l = l"
  by (auto simp: c_str_def takeWhile_eq_all_conv)

lemma load_row_empty: "load_row [] st = Continue st"
  by (simp add: load_row_def c_str_def)

lemma load_row_newline:
  assumes "NUL \<notin> set l" "NL \<notin> set l"
  shows "load_row (l @ [NL]) st = load_row l st"
proof -
  have c1: "c_str (l @ [NL]) = l @ [NL]" using assms(1) NL_not_NUL by (intro c_str_id) auto
  have c2: "c_str l = l" using assms(1) by (rule c_str_id)
  have "l \<noteq> [] \<Longrightarrow> l ! (length l - 1) \<noteq> NL"
    using assms(2) by (metis diff_less length_greater_0_conv nth_mem zero_less_one)
  then show ?thesis unfolding load_row_def c1 c2 by (auto simp: Let_def)
qed

lemma fgets_line:
  assumes "NL \<notin> set l" "int (length l) < MAXC - 1"
  shows "fgets MAXC (l @ NL # r) = Some (l @ [NL], r)"
proof -
  from assms(2) have "length l < nat (MAXC - 1)" by simp
  from fgets_chars_line [OF assms(1) this] show ?thesis by (simp add: fgets_def)
qed

lemma fgets_full:
  assumes "NL \<notin> set l" "int (length l) = MAXC - 1"
  shows "fgets MAXC (l @ r) = Some (l, r)"
proof -
  from assms(2) have n: "length l = nat (MAXC - 1)" by simp
  then have "l \<noteq> []" by (auto simp: MAXC_def)
  with fgets_chars_full [OF assms(1) n] show ?thesis by (simp add: fgets_def)
qed

lemma fgets_eof:
  assumes "NL \<notin> set l" "int (length l) \<le> MAXC - 1" "l \<noteq> []"
  shows "fgets MAXC l = Some (l, [])"
proof -
  from assms(2) have "length l \<le> nat (MAXC - 1)" by simp
  from fgets_chars_eof [OF assms(1) this] assms(3) show ?thesis by (simp add: fgets_def)
qed

lemma load_loop_Nil: "load_loop [] st = (True, st)"
  by (simp add: load_loop.simps fgets_def)

lemma load_loop_skip_newline: "load_loop (NL # r) st = load_loop r st"
proof -
  have "fgets MAXC ([] @ NL # r) = Some ([] @ [NL], r)"
    by (rule fgets_line) (simp_all add: MAXC_def)
  moreover have "load_row [NL] st = Continue st"
    using load_row_newline [of "[]" st] by (simp add: load_row_empty)
  ultimately show ?thesis by (simp add: load_loop.simps [of "NL # r"])
qed

lemma load_loop_line:
  assumes "NL \<notin> set l" "NUL \<notin> set l" "int (length l) < MAXC" "l \<noteq> []"
  shows "load_loop (l @ NL # r) st =
           (case load_row l st of
              Continue st1 \<Rightarrow> load_loop r st1
            | Break st1 \<Rightarrow> (True, st1)
            | Return0 st1 \<Rightarrow> (False, st1))"
proof (cases "int (length l) < MAXC - 1")
  case True
  from fgets_line [OF assms(1) True] load_row_newline [OF assms(2,1)] show ?thesis
    by (simp add: load_loop.simps [of "l @ NL # r"])
next
  case False
  with assms(3) have "int (length l) = MAXC - 1" by simp
  from fgets_full [OF assms(1) this, of "NL # r"] show ?thesis
    by (simp add: load_loop.simps [of "l @ NL # r"] load_loop_skip_newline split: loop_exit.splits)
qed

lemma load_loop_last_line:
  assumes "NL \<notin> set l" "int (length l) < MAXC" "l \<noteq> []"
  shows "load_loop l st =
           (case load_row l st of
              Continue st1 \<Rightarrow> (True, st1)
            | Break st1 \<Rightarrow> (True, st1)
            | Return0 st1 \<Rightarrow> (False, st1))"
proof -
  from assms(2) have "int (length l) \<le> MAXC - 1" by simp
  from fgets_eof [OF assms(1) this assms(3)] show ?thesis
    by (simp add: load_loop.simps [of l] load_loop_Nil split: loop_exit.splits)
qed

lemma split_line:
  obtains (last) "NL \<notin> set f" | (more) l r where "f = l @ NL # r" "NL \<notin> set l"
proof (cases "NL \<in> set f")
  case False then show ?thesis by (rule last)
next
  case True
  then obtain l r where "f = l @ NL # r" "NL \<notin> set l" by (auto dest: split_list_first)
  then show ?thesis by (rule more)
qed

lemma load_loop_line':
  assumes "NL \<notin> set l" "NUL \<notin> set l" "int (length l) < MAXC" "l \<noteq> []"
  shows "load_loop (l @ NL # r) st = loop_result (load_loop r) (load_row l st)"
  using load_loop_line [OF assms] by (simp add: loop_result_def)

lemma load_loop_last_line':
  assumes "NL \<notin> set l" "int (length l) < MAXC" "l \<noteq> []"
  shows "load_loop l st = loop_result (load_loop []) (load_row l st)"
  using load_loop_last_line [OF assms] by (simp add: loop_result_def load_loop_Nil split: loop_exit.splits)

lemma loop_result_store:
  "loop_result k (store_rows (l # ls) st) = loop_result (\<lambda>st1. loop_result k (store_rows ls st1)) (load_row l st)"
  by (simp add: loop_result_def split: loop_exit.splits)

lemma load_loop_lines:
  assumes t: "t = [] \<or> (\<exists>r. t = NL # r)"
  shows "short_lines f \<Longrightarrow> load_loop (f @ t) st = loop_result (load_loop t) (store_rows (nonempty_lines f) st)"
proof (induction f arbitrary: st rule: length_induct)
  case (1 f)
  have tl: "\<And>st. load_loop (NL # t) st = load_loop t st" by (rule load_loop_skip_newline)
  show ?case
  proof (cases f rule: split_line)
    case last
    show ?thesis
    proof (cases "f = []")
      case True
      then show ?thesis by (simp add: nonempty_lines_def loop_result_def)
    next
      case False
      from "1.prems" last have len: "int (length f) < MAXC" and nul: "NUL \<notin> set f"
        by (simp_all add: short_lines_def lines_of_line)
      have ne: "nonempty_lines f = [f]" using last False by (simp add: nonempty_lines_def lines_of_line)
      from t show ?thesis
      proof
        assume "t = []"
        with load_loop_last_line' [OF last len False, of st] show ?thesis
          by (simp add: ne loop_result_def split: loop_exit.splits)
      next
        assume "\<exists>r. t = NL # r"
        then obtain r where r: "t = NL # r" by blast
        from load_loop_line' [OF last nul len False, of r st] show ?thesis
          by (simp add: ne r loop_result_def load_loop_skip_newline split: loop_exit.splits)
      qed
    qed
  next
    case (more l r)
    from "1.prems" more have nul: "NUL \<notin> set l" "NUL \<notin> set r"
      and len: "int (length l) < MAXC" and sr: "short_lines r"
      by (simp_all add: short_lines_def lines_of_append)
    have ih: "\<And>st. load_loop (r @ t) st = loop_result (load_loop t) (store_rows (nonempty_lines r) st)"
      using "1.IH" sr more(1) by simp
    have ft: "f @ t = l @ NL # (r @ t)" using more(1) by simp
    show ?thesis
    proof (cases "l = []")
      case True
      have "nonempty_lines f = nonempty_lines r"
        using more(1) True by (simp add: nonempty_lines_def)
      then show ?thesis using ih True ft by (simp add: load_loop_skip_newline)
    next
      case False
      have "nonempty_lines f = l # nonempty_lines r"
        using more False by (simp add: nonempty_lines_def lines_of_append)
      have ne: "nonempty_lines f = l # nonempty_lines r"
        using more False by (simp add: nonempty_lines_def lines_of_append)
      have k: "(\<lambda>st1. loop_result (load_loop t) (store_rows (nonempty_lines r) st1)) = load_loop (r @ t)"
        by (rule ext) (rule ih [symmetric])
      have "load_loop (f @ t) st = loop_result (load_loop (r @ t)) (load_row l st)"
        unfolding ft by (rule load_loop_line' [OF more(2) nul(1) len False])
      also have "\<dots> = loop_result (load_loop t) (store_rows (l # nonempty_lines r) st)"
        unfolding loop_result_store k ..
      finally show ?thesis unfolding ne .
    qed
  qed
qed

lemma load_row_plain:
  assumes "plain_line l"
  shows "load_row l st =
           (if rows st \<noteq> 0 \<and> int (length l) \<noteq> cols st
            then Return0 (st\<lparr>maze := strcpy_row (maze st) (rows st) l\<rparr>)
            else if rows st + 1 \<ge> MAXR then Break (stored l st) else Continue (stored l st))"
proof -
  from assms have ne: "l \<noteq> []" and nl: "NL \<notin> set l" and nul: "NUL \<notin> set l"
    by (simp_all add: plain_line_def)
  have c: "c_str l = l" using nul by (rule c_str_id)
  have "l ! (length l - 1) \<noteq> NL"
    using nl ne by (metis diff_less length_greater_0_conv nth_mem zero_less_one)
  then show ?thesis unfolding load_row_def c using ne by (auto simp: Let_def stored_def)
qed

lemma grid_rows_stored:
  assumes "rows st = int k" "rows st = 0 \<or> int (length l) = cols st"
  shows "grid_rows (stored l st) = grid_rows st @ [l]"
proof -
  have r: "nat (rows (stored l st)) = Suc k" using assms(1) by (simp add: stored_def)
  have c: "nat (cols (stored l st)) = length l" using assms(2) by (auto simp: stored_def)
  have m: "maze (stored l st) = strcpy_row (maze st) (int k) l" using assms(1) by (simp add: stored_def)
  have new: "map (\<lambda>j. strcpy_row (maze st) (int k) l (int k, int j)) [0..<length l] = l"
    by (rule nth_equalityI) (simp_all add: strcpy_row_def nth_append)
  have old: "map (\<lambda>i. map (\<lambda>j. strcpy_row (maze st) (int k) l (int i, int j)) [0..<length l]) [0..<k]
             = grid_rows st"
  proof (cases "k = 0")
    case True
    with assms(1) show ?thesis by (simp add: grid_rows_def)
  next
    case False
    with assms have "nat (cols st) = length l" by auto
    then show ?thesis using assms(1) by (simp add: grid_rows_def strcpy_row_def)
  qed
  show ?thesis unfolding grid_rows_def [of "stored l st"] r c m by (simp add: new old)
qed

lemma store_rows_uniform:
  assumes "list_all plain_line ls"
  shows "rows st = int k \<Longrightarrow> 0 < k \<Longrightarrow> k < nat MAXR \<Longrightarrow> cols st = int c \<Longrightarrow>
    (case store_rows ls st of
       Return0 st' \<Rightarrow> \<not> list_all (\<lambda>l. length l = c) (take (nat MAXR - k) ls)
     | Break st' \<Rightarrow> list_all (\<lambda>l. length l = c) (take (nat MAXR - k) ls) \<and>
          nat MAXR - k \<le> length ls \<and> rows st' = MAXR \<and> cols st' = int c \<and>
          grid_rows st' = grid_rows st @ take (nat MAXR - k) ls
     | Continue st' \<Rightarrow> list_all (\<lambda>l. length l = c) ls \<and> length ls < nat MAXR - k \<and>
          rows st' = int (k + length ls) \<and> cols st' = int c \<and>
          grid_rows st' = grid_rows st @ ls)"
  using assms
proof (induction ls arbitrary: st k)
  case Nil
  then show ?case by simp
next
  case (Cons l ls)
  from Cons.prems have pl: "plain_line l" and pls: "list_all plain_line ls" by simp_all
  note lr = load_row_plain [OF pl, of st]
  from Cons.prems(2,3) obtain n where n: "nat MAXR - k = Suc n" by (cases "nat MAXR - k") auto
  show ?case
  proof (cases "length l = c")
    case False
    with lr Cons.prems(1,2,4) have "load_row l st = Return0 (st\<lparr>maze := strcpy_row (maze st) (rows st) l\<rparr>)"
      by simp
    then show ?thesis using False n by simp
  next
    case True
    have gs: "grid_rows (stored l st) = grid_rows st @ [l]"
      using Cons.prems(1,4) True by (intro grid_rows_stored [of _ k]) simp_all
    have rs: "rows (stored l st) = int (Suc k)" "cols (stored l st) = int c"
      using Cons.prems(1,2,4) by (simp_all add: stored_def)
    show ?thesis
    proof (cases "rows st + 1 \<ge> MAXR")
      case b: True
      with lr True Cons.prems(1,2,4) have e: "load_row l st = Break (stored l st)" by simp
      from b Cons.prems(1,3) have "n = 0" "rows (stored l st) = MAXR"
        using n by (simp_all add: stored_def)
      then show ?thesis using e True n gs rs by simp
    next
      case nb: False
      with lr True Cons.prems(1,2,4) have e: "load_row l st = Continue (stored l st)" by simp
      from nb Cons.prems(1) have k1: "Suc k < nat MAXR" by simp
      have n1: "nat MAXR - Suc k = n" using n by simp
      note ih = Cons.IH [OF rs(1) _ k1 rs(2) pls, unfolded n1 gs]
      show ?thesis unfolding store_rows.simps e loop_exit.case n
        using ih True by (auto split: loop_exit.splits)
    qed
  qed
qed

lemma lines_of_no_NL: "l \<in> set (lines_of f) \<Longrightarrow> NL \<notin> set l"
proof (induction f arbitrary: l)
  case Nil
  then show ?case by simp
next
  case (Cons c f)
  obtain l0 ls where ls: "lines_of f = l0 # ls" using lines_of_nonempty [of f] by (cases "lines_of f") auto
  with Cons show ?case by (auto split: if_splits)
qed

lemma lines_of_chars: "l \<in> set (lines_of f) \<Longrightarrow> set l \<subseteq> set f"
proof (induction f arbitrary: l)
  case Nil
  then show ?case by simp
next
  case (Cons c f)
  obtain l0 ls where ls: "lines_of f = l0 # ls" using lines_of_nonempty [of f] by (cases "lines_of f") auto
  with Cons show ?case by (fastforce split: if_splits)
qed



lemma nonempty_lines_plain:
  assumes "short_lines f"
  shows "list_all plain_line (nonempty_lines f)"
proof -
  have "plain_line l" if "l \<in> set (nonempty_lines f)" for l
  proof -
    from that have l: "l \<in> set (lines_of f)" "l \<noteq> []" by (simp_all add: nonempty_lines_def)
    from lines_of_chars [OF l(1)] assms have "NUL \<notin> set l" by (auto simp: short_lines_def)
    with lines_of_no_NL [OF l(1)] l(2) show ?thesis by (simp add: plain_line_def)
  qed
  then show ?thesis by (simp add: list_all_iff)
qed

lemma store_rows_first:
  assumes pl: "list_all plain_line ls" and r0: "rows st = 0" and ne: "ls \<noteq> []"
  shows "case store_rows ls st of
       Return0 st' \<Rightarrow> \<not> list_all (\<lambda>l. length l = length (hd ls)) (take (nat MAXR) ls)
     | Break st' \<Rightarrow> list_all (\<lambda>l. length l = length (hd ls)) (take (nat MAXR) ls) \<and>
          nat MAXR \<le> length ls \<and> rows st' = MAXR \<and> cols st' = int (length (hd ls)) \<and>
          grid_rows st' = take (nat MAXR) ls
     | Continue st' \<Rightarrow> list_all (\<lambda>l. length l = length (hd ls)) (take (nat MAXR) ls) \<and>
          length ls < nat MAXR \<and> rows st' = int (length ls) \<and> cols st' = int (length (hd ls)) \<and>
          grid_rows st' = take (nat MAXR) ls"
proof -
  from ne obtain l ls' where ls: "ls = l # ls'" by (cases ls) auto
  from pl ls have p: "plain_line l" "list_all plain_line ls'" by simp_all
  have e: "load_row l st = Continue (stored l st)"
    using load_row_plain [OF p(1), of st] r0 by (simp add: MAXR_def)
  have g: "grid_rows (stored l st) = [l]"
    using grid_rows_stored [of st 0 l] r0 by (simp add: grid_rows_def)
  have rs: "rows (stored l st) = int 1" "cols (stored l st) = int (length l)"
    using r0 by (simp_all add: stored_def)
  have m: "nat MAXR = Suc (nat MAXR - 1)" by (simp add: MAXR_def)
  note u = store_rows_uniform [OF p(2) rs(1) _ _ rs(2), unfolded g]
  have u': "case store_rows ls' (stored l st) of
       Return0 st' \<Rightarrow> \<not> list_all (\<lambda>x. length x = length l) (take (nat MAXR - 1) ls')
     | Break st' \<Rightarrow> list_all (\<lambda>x. length x = length l) (take (nat MAXR - 1) ls') \<and>
          nat MAXR - 1 \<le> length ls' \<and> rows st' = MAXR \<and> cols st' = int (length l) \<and>
          grid_rows st' = [l] @ take (nat MAXR - 1) ls'
     | Continue st' \<Rightarrow> list_all (\<lambda>x. length x = length l) ls' \<and> length ls' < nat MAXR - 1 \<and>
          rows st' = int (1 + length ls') \<and> cols st' = int (length l) \<and>
          grid_rows st' = [l] @ ls'"
    by (rule u) (simp_all add: MAXR_def)
  have t: "take (nat MAXR) (l # ls') = l # take (nat MAXR - 1) ls'" by (subst m) simp
  show ?thesis unfolding ls store_rows.simps e loop_exit.case t list.sel
    using u' by (auto split: loop_exit.splits)
qed

lemma in_grid_nat:
  "(\<exists>w. in_grid st w \<and> maze st w = ch) \<longleftrightarrow>
   (\<exists>i j. i < nat (rows st) \<and> j < nat (cols st) \<and> maze st (int i, int j) = ch)"
proof
  assume "\<exists>w. in_grid st w \<and> maze st w = ch"
  then obtain a b where w: "in_grid st (a, b)" "maze st (a, b) = ch" by auto
  then have "nat a < nat (rows st) \<and> nat b < nat (cols st) \<and> maze st (int (nat a), int (nat b)) = ch"
    by (auto simp: in_grid_def)
  then show "\<exists>i j. i < nat (rows st) \<and> j < nat (cols st) \<and> maze st (int i, int j) = ch" by blast
next
  assume "\<exists>i j. i < nat (rows st) \<and> j < nat (cols st) \<and> maze st (int i, int j) = ch"
  then obtain i j where "i < nat (rows st)" "j < nat (cols st)" "maze st (int i, int j) = ch" by blast
  then have "in_grid st (int i, int j) \<and> maze st (int i, int j) = ch" by (auto simp: in_grid_def)
  then show "\<exists>w. in_grid st w \<and> maze st w = ch" by blast
qed

lemma grid_rows_marker:
  "(\<exists>w. in_grid st w \<and> maze st w = ch) \<longleftrightarrow> list_ex (\<lambda>l. ch \<in> set l) (grid_rows st)"
proof -
  define row where "row = (\<lambda>i. map (\<lambda>j. maze st (int i, int j)) [0..<nat (cols st)])"
  have g: "set (grid_rows st) = row ` {0..<nat (rows st)}" by (simp add: grid_rows_def row_def)
  have r: "\<And>i. ch \<in> set (row i) \<longleftrightarrow> (\<exists>j. j < nat (cols st) \<and> maze st (int i, int j) = ch)"
    by (auto simp: image_iff row_def)
  have "list_ex (\<lambda>l. ch \<in> set l) (grid_rows st) \<longleftrightarrow> (\<exists>i. i < nat (rows st) \<and> ch \<in> set (row i))"
    unfolding list_ex_iff g by auto
  also have "\<dots> \<longleftrightarrow> (\<exists>i j. i < nat (rows st) \<and> j < nat (cols st) \<and> maze st (int i, int j) = ch)"
    unfolding r by blast
  finally show ?thesis unfolding in_grid_nat ..
qed

lemma grid_rows_cong:
  "maze st' = maze st \<Longrightarrow> rows st' = rows st \<Longrightarrow> cols st' = cols st \<Longrightarrow> grid_rows st' = grid_rows st"
  by (simp add: grid_rows_def)

lemma load_maze_of_grid:
  assumes loop: "load_loop f (st\<lparr>rows := 0\<rparr>) = (True, st1)" and r: "rows st1 \<noteq> 0"
  shows "\<exists>st2. load_maze (Some f) st =
           (if list_ex (\<lambda>l. CHR ''S'' \<in> set l) (grid_rows st1) \<and>
               list_ex (\<lambda>l. CHR ''E'' \<in> set l) (grid_rows st1) then 1 else 0, st2) \<and>
           rows st2 = rows st1 \<and> grid_rows st2 = grid_rows st1"
proof -
  from loop r obtain st2 where
    a: "load_maze (Some f) st = (if sr st2 = -1 \<or> er st2 = -1 then 0 else 1, st2)"
    and b: "maze st2 = maze st1" "rows st2 = rows st1" "cols st2 = cols st1" "rows_inv st2"
    and c: "sr st2 = -1 \<longleftrightarrow> \<not> (\<exists>w. in_grid st1 w \<and> maze st1 w = CHR ''S'')"
           "er st2 = -1 \<longleftrightarrow> \<not> (\<exists>w. in_grid st1 w \<and> maze st1 w = CHR ''E'')"
    and d: "sr st2 \<noteq> -1 \<longrightarrow> last_marker st2 CHR ''S'' (sr st2, sc st2)"
           "er st2 \<noteq> -1 \<longrightarrow> last_marker st2 CHR ''E'' (er st2, ec st2)"
    by (rule load_maze_after_loop)
  note c' = c [unfolded grid_rows_marker]
  have "load_maze (Some f) st =
           (if list_ex (\<lambda>l. CHR ''S'' \<in> set l) (grid_rows st1) \<and>
               list_ex (\<lambda>l. CHR ''E'' \<in> set l) (grid_rows st1) then 1 else 0, st2)"
    unfolding a using c' by auto
  moreover have "grid_rows st2 = grid_rows st1" using b(1-3) by (rule grid_rows_cong)
  ultimately show ?thesis using b(2) by blast
qed

lemma loop_result_cases:
  "loop_result k (Return0 st') = (False, st')" "loop_result k (Break st') = (True, st')"
  "loop_result k (Continue st') = k st'"
  by (simp_all add: loop_result_def)

lemma claimed_loadable_iff:
  assumes "ls = nonempty_lines f" "ls \<noteq> []"
  shows "claimed_loadable f \<longleftrightarrow>
           list_all (\<lambda>l. length l = length (hd ls)) (take (nat MAXR) ls) \<and>
           list_ex (\<lambda>l. CHR ''S'' \<in> set l) (take (nat MAXR) ls) \<and>
           list_ex (\<lambda>l. CHR ''E'' \<in> set l) (take (nat MAXR) ls)"
proof -
  have "0 < nat MAXR" by (simp add: MAXR_def)
  with assms(2) have "take (nat MAXR) ls \<noteq> []" "hd (take (nat MAXR) ls) = hd ls"
    by (cases ls; cases "nat MAXR"; simp)+
  then show ?thesis unfolding claimed_loadable_def assms(1) [symmetric] by (simp add: Let_def)
qed

lemma load_maze_lines:
  assumes sl: "short_lines f"
  shows "fst (load_maze (Some f) st) = (if claimed_loadable f then 1 else 0)"
proof -
  define ls where "ls = nonempty_lines f"
  define st0 where "st0 = st\<lparr>rows := 0\<rparr>"
  have ll: "load_loop f st0 = loop_result (load_loop []) (store_rows ls st0)"
    using load_loop_lines [OF _ sl, of "[]" st0] by (simp add: ls_def)
  show ?thesis
  proof (cases "ls = []")
    case True
    then have "load_loop f st0 = (True, st0)" unfolding ll by (simp add: loop_result_cases load_loop_Nil)
    from load_maze_empty [OF this [unfolded st0_def]] have "fst (load_maze (Some f) st) = 0" by simp
    moreover have "\<not> claimed_loadable f" using True by (simp add: claimed_loadable_def ls_def)
    ultimately show ?thesis by simp
  next
    case False
    note cl = claimed_loadable_iff [OF ls_def False]
    have r0: "rows st0 = 0" by (simp add: st0_def)
    have pl: "list_all plain_line ls" unfolding ls_def using sl by (rule nonempty_lines_plain)
    note sf = store_rows_first [OF pl r0 False]
    show ?thesis
    proof (cases "store_rows ls st0")
      case (Return0 st')
      with sf have "\<not> claimed_loadable f" by (simp add: cl)
      moreover from Return0 have "load_loop f st0 = (False, st')" unfolding ll by (simp add: loop_result_cases)
      from load_maze_Return0 [OF this [unfolded st0_def]] have "fst (load_maze (Some f) st) = 0" by simp
      ultimately show ?thesis by simp
    next
      case (Break st')
      with sf have u: "list_all (\<lambda>l. length l = length (hd ls)) (take (nat MAXR) ls)"
        and g: "grid_rows st' = take (nat MAXR) ls" and r: "rows st' \<noteq> 0" by (simp_all add: MAXR_def)
      from Break have "load_loop f st0 = (True, st')" unfolding ll by (simp add: loop_result_cases)
      from load_maze_of_grid [OF this [unfolded st0_def] r] show ?thesis
        unfolding g using u by (auto simp: cl)
    next
      case (Continue st')
      with sf False have u: "list_all (\<lambda>l. length l = length (hd ls)) (take (nat MAXR) ls)"
        and g: "grid_rows st' = take (nat MAXR) ls" and r: "rows st' \<noteq> 0" by auto
      from Continue have "load_loop f st0 = (True, st')" unfolding ll
        by (simp add: loop_result_cases load_loop_Nil)
      from load_maze_of_grid [OF this [unfolded st0_def] r] show ?thesis
        unfolding g using u by (auto simp: cl)
    qed
  qed
qed

text \<open>
  C6, amended. A source that cannot be opened fails. For a source without NUL bytes
  whose lines are all shorter than \<open>MAXC\<close> (at most 104 characters), loading succeeds
  exactly when there is a non-empty line, the retained non-empty lines (the first 105)
  have the length of the first one, and an \<open>S\<close> and an \<open>E\<close> occur in them.
\<close>

theorem load_maze_success_iff:
  "fst (load_maze None st) = 0 \<and>
   (short_lines f \<longrightarrow> (fst (load_maze (Some f) st) = 1 \<longleftrightarrow> claimed_loadable f))"
  using load_maze_lines [of f st] by (simp add: load_maze_None)

theorem load_maze_success_iff_witness:
  "fst (load_maze None init_state) = 0 \<and> short_lines demo_file \<and>
   fst (load_maze (Some demo_file) init_state) = 1 \<and> claimed_loadable demo_file"
proof -
  have s: "short_lines demo_file" by code_simp
  have c: "claimed_loadable demo_file" by code_simp
  from load_maze_success_iff [of init_state demo_file] s c show ?thesis by simp
qed

text \<open>
  The claim as stated, without the bound on the line length, fails: a single line of
  150 characters with \<open>S\<close> and \<open>E\<close> meets every condition of the claim, but \<open>fgets\<close> hands
  it over in pieces of 104 and 46 characters and loading fails.
\<close>

theorem load_maze_wide_line_fails:
  "claimed_loadable wide_line \<and> fst (load_maze (Some wide_line) init_state) = 0"
proof
  show "claimed_loadable wide_line" by code_simp
  show "fst (load_maze (Some wide_line) init_state) = 0" by code_simp
qed








section \<open>The main loop and failed loads\<close>

lemma main_initial_load_checked:
  assumes "fst (load_maze (file_at w 0) init_state) = 0"
  shows "\<exists>st. main w ints cs = Exit 1 [LoadError, Terminated] st"
proof -
  obtain ok st where l: "load_maze (file_at w 0) init_state = (ok, st)"
    by (cases "load_maze (file_at w 0) init_state")
  with assms have "ok = 0" by simp
  with l have "main w ints cs = Exit 1 [LoadError, Terminated] st" by (simp add: main_def)
  then show ?thesis by blast
qed

text \<open>
  C3. A failed initial load ends the program with exit code 1
  (\<open>main_initial_load_checked\<close>). The reload after a mode does not: \<open>main\<close> drops the
  value \<open>load_maze\<close> returns. In the run below the file is \<open>S.E\<close> at the first load and
  the ragged \<open>S#\<close>, \<open>E\<close> at the reload; the user asks for the shortest path, returns to
  the menu, asks again and leaves. The reload fails, the second search runs all the
  same, on the one row \<open>S#\<close> that was stored before the error and with the exit still
  at column 2 of the old grid, and the program ends with exit code 0.
\<close>

theorem main_continues_after_failed_reload:
  "run_summary (main flaky_world [3, 1, 3, 2] []) =
     Some (0, [BfsReport (Shortest 2), LoadError, BfsReport NoPath, Goodbye],
           [''S#''], (0, 0), (0, 2))"
  by code_simp

text \<open>
  C4. The same reload breaks the guarantee on the paths of the depth-first search.
  \<open>dfs_find_one_path\<close> tests every cell it steps to with \<open>is_valid\<close>, but not the cell
  of the top-level call, the start that the last successful load has left in \<open>sr\<close>,
  \<open>sc\<close>. In the run below the file is \<open>S.E\<close> at the first load and the ragged \<open>#.E\<close>,
  \<open>xx\<close> at the reload; the user asks for the shortest path, returns to the menu, asks for
  possible paths, declines a second one and leaves. The reload fails after it has
  stored the row \<open>#.E\<close>; the search then starts at the old start \<open>(0, 0)\<close>, now a wall,
  and the path it reports as found, of 2 steps, is \<open>(0, 0)\<close>, \<open>(0, 1)\<close>, \<open>(0, 2)\<close>: its
  first cell is a wall cell.
\<close>

theorem dfs_path_from_wall_after_failed_reload:
  "path_summary (main stale_world [3, 1, 2, 2] ''n'') =
     Some (0, [BfsReport (Shortest 2), LoadError, PathShown 2, Goodbye],
           [''#.E''], [(0, 0), (0, 1), (0, 2)], ''#.E'')"
  by code_simp

end
